theory Spec2Isabelle
  imports Main "HOL-Library.Word"
begin

unbundle bit_operations_syntax

section \<open>Data model\<close>

text \<open>
  A shallow embedding of the seek table (package seektable), the frame-splitting writer
  and the seekable reader of szstd. Bytes are 8-bit words, the size fields of the format
  32-bit words and the cumulative offsets 64-bit words, so every conversion
  \<^verbatim>\<open>uint32(...)\<close> and every addition on \<^verbatim>\<open>uint64\<close> wraps as it does in Go.
  Go's \<^verbatim>\<open>int\<close> (64 bit) is modelled as \<open>int\<close>: the values of that type are slice
  lengths, indices below them and byte counts, none of which reaches \<open>2 ^ 63\<close>.
\<close>

type_synonym byte = "8 word"

text \<open>
  Errors and panics are values. \<open>Join\<close> is \<^verbatim>\<open>errors.Join\<close>, \<open>Err\<close> is
  \<^verbatim>\<open>errors.New\<close> with its message, \<open>Panic\<close> a run-time panic with its cause.
\<close>

datatype error =
    Err string
  | Panic string
  | ErrInvalidSeekTable
  | ErrInvalidSeekTableFooterMagicNumber
  | ErrInvalidSeekTableHeaderMagicNumber
  | ErrSeekTableSizeMismatch
  | EOF
  | ErrUnexpectedEOF
  | Join error error

record TableEntry =
  CompressedSize :: "32 word"
  DecompressedSize :: "32 word"

record TableOffset =
  EntryIndex :: int
  EntryOffsetInCompressed :: "64 word"
  EntryOffsetInDecompressed :: "64 word"

text \<open>
  The table keeps its entries as raw bytes, eight per entry. \<open>cached\<close> is the state of
  the \<^verbatim>\<open>sync.Once\<close>: once it is set, \<open>cachedOffsets\<close> is never computed again.
\<close>

record Table =
  entries :: "byte list"
  cached :: bool
  cachedOffsets :: "TableOffset list"

definition emptyTable :: Table where
  "emptyTable = \<lparr>entries = [], cached = False, cachedOffsets = []\<rparr>"

definition zeroTableOffset :: TableOffset where
  "zeroTableOffset = \<lparr>EntryIndex = 0, EntryOffsetInCompressed = 0, EntryOffsetInDecompressed = 0\<rparr>"

section \<open>Little-endian fields\<close>

text \<open>\<^verbatim>\<open>binary.LittleEndian.Uint32\<close> and \<^verbatim>\<open>PutUint32\<close> on a slice of four bytes.\<close>

definition Uint32 :: "byte list \<Rightarrow> 32 word" where
  "Uint32 b = ucast (b ! 0) OR push_bit 8 (ucast (b ! 1))
                OR push_bit 16 (ucast (b ! 2)) OR push_bit 24 (ucast (b ! 3))"

definition PutUint32 :: "32 word \<Rightarrow> byte list" where
  "PutUint32 v = [ucast v, ucast (drop_bit 8 v), ucast (drop_bit 16 v), ucast (drop_bit 24 v)]"

section \<open>Table\<close>

definition NumEntries :: "Table \<Rightarrow> int" where
  "NumEntries t = int (length (entries t)) div 8"

text \<open>
  \<^verbatim>\<open>t.entries[offset : offset+4]\<close> panics when the bounds leave the slice. Go checks the
  bounds of a slice expression against the capacity of the slice, and \<^verbatim>\<open>append\<close> may
  allocate more capacity than it needs: how much is the choice of the runtime, not of this
  package. The model takes the smallest choice, a capacity equal to the length. So
  \<open>GetEntry\<close> and \<open>SetEntry\<close> are the source's at every index \<open>i\<close> with
  \<open>0 \<le> i < NumEntries t\<close>, where they neither panic nor touch spare capacity, and at the
  negative indices, where both panic; past the last entry the model reports a panic where
  the source reads or writes the spare capacity, if the runtime has left some. Likewise
  \<open>index * 8\<close> is computed without overflow: on the 64-bit \<^verbatim>\<open>int\<close> it wraps only for an
  index of \<open>2 ^ 60\<close> or more in absolute value, more than a slice has entries. No
  property proved below rests on an index past the last entry.
\<close>

definition GetEntry :: "Table \<Rightarrow> int \<Rightarrow> error + TableEntry" where
  "GetEntry t index =
     (let offset = index * 8 in
      if 0 \<le> offset \<and> offset + 8 \<le> int (length (entries t)) then
        Inr \<lparr>CompressedSize = Uint32 (take 4 (drop (nat offset) (entries t))),
             DecompressedSize = Uint32 (take 4 (drop (nat (offset + 4)) (entries t)))\<rparr>
      else Inl (Panic ''slice bounds out of range''))"

definition SetEntry :: "Table \<Rightarrow> int \<Rightarrow> TableEntry \<Rightarrow> error + Table" where
  "SetEntry t index entry =
     (let offset = index * 8 in
      if 0 \<le> offset \<and> offset + 8 \<le> int (length (entries t)) then
        Inr (t\<lparr>entries := take (nat offset) (entries t)
                             @ PutUint32 (CompressedSize entry)
                             @ PutUint32 (DecompressedSize entry)
                             @ drop (nat (offset + 8)) (entries t)\<rparr>)
      else Inl (Panic ''slice bounds out of range''))"

definition AppendEntry :: "Table \<Rightarrow> TableEntry \<Rightarrow> error + Table" where
  "AppendEntry t entry =
     (let t1 = t\<lparr>entries := entries t @ [0, 0, 0, 0, 0, 0, 0, 0]\<rparr>
      in SetEntry t1 (NumEntries t1 - 1) entry)"

definition Size :: "Table \<Rightarrow> int" where
  "Size t = int (length (entries t)) + 8 + 9"

text \<open>
  \<^verbatim>\<open>CacheOffsets\<close>: one forward scan that writes the running totals into a slice made
  with one element per entry. The totals are \<^verbatim>\<open>uint64\<close> and wrap.
\<close>

function CacheOffsets_loop :: "Table \<Rightarrow> int \<Rightarrow> 64 word \<Rightarrow> 64 word \<Rightarrow> TableOffset list \<Rightarrow> error + TableOffset list" where
  "CacheOffsets_loop t i compressedOffset decompressedOffset offsets =
     (if i < NumEntries t then
        (case GetEntry t i of
           Inl p \<Rightarrow> Inl p
         | Inr entry \<Rightarrow>
             if 0 \<le> i \<and> i < int (length offsets) then
               CacheOffsets_loop t (i + 1)
                 (compressedOffset + ucast (CompressedSize entry))
                 (decompressedOffset + ucast (DecompressedSize entry))
                 (offsets[nat i := \<lparr>EntryIndex = i,
                                      EntryOffsetInCompressed = compressedOffset,
                                      EntryOffsetInDecompressed = decompressedOffset\<rparr>])
             else Inl (Panic ''index out of range''))
      else Inr offsets)"
  by pat_completeness auto
termination
  by (relation "measure (\<lambda>(t, i, c, d, offs). nat (NumEntries t - i))") auto

text \<open>The body runs under \<^verbatim>\<open>sync.Once\<close>: only while \<open>cached\<close> is unset.\<close>

definition CacheOffsets :: "Table \<Rightarrow> error + Table" where
  "CacheOffsets t =
     (if cached t then Inr t
      else case CacheOffsets_loop t 0 0 0 (replicate (nat (NumEntries t)) zeroTableOffset) of
             Inl p \<Rightarrow> Inl p
           | Inr offsets \<Rightarrow> Inr (t\<lparr>cached := True, cachedOffsets := offsets\<rparr>))"

definition OffsetsByIndex :: "Table \<Rightarrow> int \<Rightarrow> error + (TableOffset \<times> Table)" where
  "OffsetsByIndex t index =
     (case CacheOffsets t of
        Inl p \<Rightarrow> Inl p
      | Inr t' \<Rightarrow>
          if 0 \<le> index \<and> index < int (length (cachedOffsets t')) then
            Inr (cachedOffsets t' ! nat index, t')
          else Inl (Panic ''index out of range''))"

text \<open>Go's integer division truncates towards zero.\<close>

definition quot :: "int \<Rightarrow> int \<Rightarrow> int" where
  "quot a b = sgn a * sgn b * (\<bar>a\<bar> div \<bar>b\<bar>)"

text \<open>
  The two search paths of \<^verbatim>\<open>Find\<close>. The linear scan ranges over the cached offsets;
  \<^verbatim>\<open>&&\<close> evaluates \<^verbatim>\<open>GetEntry\<close> only when the left operand holds. The binary search
  runs while \<^verbatim>\<open>low <= high\<close>.
\<close>

fun Find_linear :: "Table \<Rightarrow> TableOffset list \<Rightarrow> 64 word \<Rightarrow> error + (TableOffset \<times> bool)" where
  "Find_linear t [] offset = Inr (zeroTableOffset, False)"
| "Find_linear t (to # rest) offset =
     (if EntryOffsetInDecompressed to \<le> offset then
        (case GetEntry t (EntryIndex to) of
           Inl p \<Rightarrow> Inl p
         | Inr entry \<Rightarrow>
             if offset < EntryOffsetInDecompressed to + ucast (DecompressedSize entry)
             then Inr (to, True)
             else Find_linear t rest offset)
      else Find_linear t rest offset)"

function Find_binary :: "Table \<Rightarrow> 64 word \<Rightarrow> int \<Rightarrow> int \<Rightarrow> error + (TableOffset \<times> bool)" where
  "Find_binary t offset low high =
     (if low \<le> high then
        (let mid = quot (low + high) 2 in
         if 0 \<le> mid \<and> mid < int (length (cachedOffsets t)) then
           (let to = cachedOffsets t ! nat mid in
            case GetEntry t (EntryIndex to) of
              Inl p \<Rightarrow> Inl p
            | Inr entry \<Rightarrow>
                if EntryOffsetInDecompressed to \<le> offset
                   \<and> offset < EntryOffsetInDecompressed to + ucast (DecompressedSize entry)
                then Inr (to, True)
                else if offset < EntryOffsetInDecompressed to
                then Find_binary t offset low (mid - 1)
                else Find_binary t offset (mid + 1) high)
         else Inl (Panic ''index out of range''))
      else Inr (zeroTableOffset, False))"
  by pat_completeness auto
termination
proof -
  have mid: "\<And>low high :: int. low \<le> high \<Longrightarrow> low \<le> quot (low + high) 2 \<and> quot (low + high) 2 \<le> high"
    by (auto simp: quot_def sgn_if abs_if)
  show ?thesis
    by (relation "measure (\<lambda>(t, offset, low, high). nat (high - low + 1))")
      (use mid in force)+
qed

section \<open>The byte sink and the byte source\<close>

text \<open>
  The writer's \<^verbatim>\<open>io.Writer\<close> and the reader's \<^verbatim>\<open>io.ReadSeeker\<close> are supplied by the
  caller. The sink is modelled after \<^verbatim>\<open>bytes.Buffer\<close>, which the tests write to: a write
  appends the bytes. \<open>faults\<close> scripts the failures of the next calls: \<open>None\<close> is a
  call that succeeds, \<open>Some k\<close> one that accepts at most \<open>k\<close> bytes and returns an
  error; when the script is used up every write succeeds. A call that returns no error has
  written all of its bytes, as the contract of \<^verbatim>\<open>io.Writer\<close> requires.
\<close>

record sink =
  sunk :: "byte list"
  faults :: "nat option list"

definition sink_Write :: "sink \<Rightarrow> byte list \<Rightarrow> int \<times> error option \<times> sink" where
  "sink_Write s p =
     (case faults s of
        [] \<Rightarrow> (int (length p), None, s\<lparr>sunk := sunk s @ p\<rparr>)
      | None # fs \<Rightarrow> (int (length p), None, s\<lparr>sunk := sunk s @ p, faults := fs\<rparr>)
      | Some k # fs \<Rightarrow>
          (int (min k (length p)), Some (Err ''sink write failed''),
           s\<lparr>sunk := sunk s @ take k p, faults := fs\<rparr>))"

definition newBuffer :: sink where
  "newBuffer = \<lparr>sunk = [], faults = []\<rparr>"

text \<open>
  The source is modelled after \<^verbatim>\<open>bytes.Reader\<close>, which the tests read from: the bytes
  and a position. \<open>ReadFull\<close> is \<^verbatim>\<open>io.ReadFull\<close> on it: all \<open>n\<close> bytes or an error;
  for \<open>n = 0\<close> it returns without reading.
\<close>

record source =
  content :: "byte list"
  pos :: int

definition SeekStart :: int where "SeekStart = 0"
definition SeekCurrent :: int where "SeekCurrent = 1"
definition SeekEnd :: int where "SeekEnd = 2"

definition newSource :: "byte list \<Rightarrow> source" where
  "newSource b = \<lparr>content = b, pos = 0\<rparr>"

definition source_Seek :: "source \<Rightarrow> int \<Rightarrow> int \<Rightarrow> error + (int \<times> source)" where
  "source_Seek s offset whence =
     (if whence \<noteq> SeekStart \<and> whence \<noteq> SeekCurrent \<and> whence \<noteq> SeekEnd
      then Inl (Err ''bytes.Reader.Seek: invalid whence'')
      else
        (let abs = (if whence = SeekStart then offset
                    else if whence = SeekCurrent then pos s + offset
                    else int (length (content s)) + offset)
         in if abs < 0 then Inl (Err ''bytes.Reader.Seek: negative position'')
            else Inr (abs, s\<lparr>pos := abs\<rparr>)))"

definition ReadFull :: "source \<Rightarrow> nat \<Rightarrow> error + (byte list \<times> source)" where
  "ReadFull s n =
     (if n = 0 then Inr ([], s)
      else if int (length (content s)) \<le> pos s then Inl EOF
      else if length (content s) - nat (pos s) < n then Inl ErrUnexpectedEOF
      else Inr (take n (drop (nat (pos s)) (content s)), s\<lparr>pos := pos s + int n\<rparr>))"

section \<open>Reading and writing the table\<close>

definition headerMagicNumber :: "32 word" where
  "headerMagicNumber = 0x184D2A5E"

definition footerMagicNumber :: "32 word" where
  "footerMagicNumber = 0x8F92EAB1"

text \<open>
  The test of the emptiness loop,
  \<^verbatim>\<open>entriesData[0] == 0 && entriesData[1] == 0 && entriesData[2] == 0 && entriesData[3] == 0\<close>:
  it reads the first four bytes whatever the loop counter is, and an index beyond the data
  panics.
\<close>

definition firstChunkEmpty :: "byte list \<Rightarrow> error + bool" where
  "firstChunkEmpty entriesData =
     (if length entriesData < 1 then Inl (Panic ''index out of range'')
      else if entriesData ! 0 \<noteq> 0 then Inr False
      else if length entriesData < 2 then Inl (Panic ''index out of range'')
      else if entriesData ! 1 \<noteq> 0 then Inr False
      else if length entriesData < 3 then Inl (Panic ''index out of range'')
      else if entriesData ! 2 \<noteq> 0 then Inr False
      else if length entriesData < 4 then Inl (Panic ''index out of range'')
      else Inr (entriesData ! 3 = 0))"

text \<open>
  \<^verbatim>\<open>for i := uint32(0); i < numEntries; i += 4\<close>. The counter is a \<^verbatim>\<open>uint32\<close> and wraps,
  so the loop need not end: not returning is \<open>None\<close>.
\<close>

partial_function (option) emptyChunk_loop ::
  "byte list \<Rightarrow> 32 word \<Rightarrow> 32 word \<Rightarrow> (error option) option" where
  "emptyChunk_loop entriesData numEntries i =
     (if i < numEntries then
        (if firstChunkEmpty entriesData = Inr False
         then emptyChunk_loop entriesData numEntries (i + 4)
         else if firstChunkEmpty entriesData = Inr True
         then Some (Some (Join ErrInvalidSeekTable (Err ''seek table contains empty chunk entry'')))
         else Some (Some (Panic ''index out of range'')))
      else Some None)"

text \<open>
  \<^verbatim>\<open>ReadTableFromReadSeeker\<close>. \<open>numEntries * 8\<close> and the table size are computed on
  \<^verbatim>\<open>uint32\<close>, as in the source.
\<close>

definition ReadTableFromReadSeeker :: "source \<Rightarrow> (error + (Table \<times> source)) option" where
  "ReadTableFromReadSeeker data =
     (case source_Seek data (- 9) SeekEnd of
        Inl e \<Rightarrow> Some (Inl (Join (Err ''error while seeking to seek table footer'') e))
      | Inr (_, d1) \<Rightarrow>
     (case ReadFull d1 9 of
        Inl e \<Rightarrow> Some (Inl (Join (Err ''error while reading seek table footer'') e))
      | Inr (footer, d2) \<Rightarrow>
     (let numEntries = Uint32 (take 4 footer) in
      if Uint32 (take 4 (drop 5 footer)) \<noteq> footerMagicNumber
      then Some (Inl (Join ErrInvalidSeekTable ErrInvalidSeekTableFooterMagicNumber))
      else
     (let seekTableSize = uint (8 + (numEntries * 8) + 9) in
      case source_Seek d2 (- seekTableSize) SeekEnd of
        Inl e \<Rightarrow> Some (Inl (Join (Err ''error while seeking to seek table start'') e))
      | Inr (_, d3) \<Rightarrow>
     (case ReadFull d3 8 of
        Inl e \<Rightarrow> Some (Inl (Join (Err ''error while reading seek table header'') e))
      | Inr (header, d4) \<Rightarrow>
      if Uint32 (take 4 header) \<noteq> headerMagicNumber
      then Some (Inl (Join ErrInvalidSeekTable ErrInvalidSeekTableHeaderMagicNumber))
      else
     (let frameSize = Uint32 (take 4 (drop 4 header)) in
      if frameSize \<noteq> (numEntries * 8) + 9
      then Some (Inl (Join ErrInvalidSeekTable ErrSeekTableSizeMismatch))
      else
     (case ReadFull d4 (unat (numEntries * 8)) of
        Inl e \<Rightarrow> Some (Inl (Join (Err ''error while reading seek table entries'') e))
      | Inr (entriesData, d5) \<Rightarrow>
     (case emptyChunk_loop entriesData numEntries 0 of
        None \<Rightarrow> None
      | Some (Some e) \<Rightarrow> Some (Inl e)
      | Some None \<Rightarrow>
          Some (Inr (\<lparr>entries = entriesData, cached = False, cachedOffsets = []\<rparr>, d5))))))))))"

text \<open>
  \<^verbatim>\<open>WriteTableToWriter\<close>: header, entry bytes, footer; the count of bytes written so
  far is returned with the first error.
\<close>

definition WriteTableToWriter :: "Table \<Rightarrow> sink \<Rightarrow> int \<times> error option \<times> sink" where
  "WriteTableToWriter t w =
     (let header = PutUint32 0x184D2A5E @ PutUint32 (word_of_int (int (length (entries t)) + 9)) in
      case sink_Write w header of
        (headerBytes, Some e, w1) \<Rightarrow>
          (headerBytes, Some (Join (Err ''error while writing seek table header'') e), w1)
      | (headerBytes, None, w1) \<Rightarrow>
     (case sink_Write w1 (entries t) of
        (entriesBytes, Some e, w2) \<Rightarrow>
          (headerBytes + entriesBytes,
           Some (Join (Err ''error while writing seek table entries'') e), w2)
      | (entriesBytes, None, w2) \<Rightarrow>
     (let footer = PutUint32 (word_of_int (NumEntries t)) @ [0] @ PutUint32 footerMagicNumber in
      case sink_Write w2 footer of
        (footerBytes, Some e, w3) \<Rightarrow>
          (headerBytes + entriesBytes + footerBytes,
           Some (Join (Err ''error while writing seek table footer'') e), w3)
      | (footerBytes, None, w3) \<Rightarrow>
          (headerBytes + entriesBytes + footerBytes, None, w3))))"

text \<open>
  \<^verbatim>\<open>Find\<close>: the offsets are cached first, then the table is searched linearly below 32
  cached offsets and by bisection from 32 on. The table is returned with its cache.
\<close>

definition Find :: "Table \<Rightarrow> 64 word \<Rightarrow> error + ((TableOffset \<times> bool) \<times> Table)" where
  "Find t offset =
     (case CacheOffsets t of
        Inl p \<Rightarrow> Inl p
      | Inr t' \<Rightarrow>
          (case (if length (cachedOffsets t') < 32
                 then Find_linear t' (cachedOffsets t') offset
                 else Find_binary t' offset 0 (int (length (cachedOffsets t')) - 1)) of
             Inl p \<Rightarrow> Inl p
           | Inr res \<Rightarrow> Inr (res, t')))"

section \<open>The reader\<close>

text \<open>
  The state of \<^verbatim>\<open>reader\<close>. The fields \<^verbatim>\<open>r\<close>, \<^verbatim>\<open>seekTable\<close> and \<^verbatim>\<open>offset\<close> carry the
  prefix \<open>reader_\<close>. The decoder is the function \<^verbatim>\<open>DecodeAll\<close> computes. An \<^verbatim>\<open>int64\<close>
  is a 64-bit word read as signed, so that \<^verbatim>\<open>uint64(offset)\<close> is the word itself.
\<close>

record reader =
  reader_r :: source
  decoder :: "byte list \<Rightarrow> error + byte list"
  reader_seekTable :: Table
  reader_offset :: "64 word"
  totalCompressedDataSize :: "64 word"
  totalUncompressedDataSize :: "64 word"
  currentFrameIndex :: int
  currentFrameLoaded :: bool
  currentFrameBuffer :: "byte list"
  currentFrameReaded :: int
  currentFrameAvailable :: int
  compressedDataBuffer :: "byte list"

text \<open>
  \<^verbatim>\<open>NewReadSeeker\<close>. \<open>newDecoder\<close> is what \<^verbatim>\<open>zstd.NewReader\<close> returns for the options.
  The numbers that \<^verbatim>\<open>fmt.Errorf\<close> formats into the last message are left out of it.
\<close>

definition NewReadSeeker ::
  "source \<Rightarrow> (error + (byte list \<Rightarrow> error + byte list)) \<Rightarrow> (error + reader) option" where
  "NewReadSeeker src newDecoder =
     (case newDecoder of
        Inl e \<Rightarrow> Some (Inl (Join (Err ''failed to create zstd decoder'') e))
      | Inr dec \<Rightarrow>
     (case ReadTableFromReadSeeker src of
        None \<Rightarrow> None
      | Some (Inl e) \<Rightarrow> Some (Inl (Join (Err ''failed to read seek table'') e))
      | Some (Inr (tbl, s1)) \<Rightarrow>
     (case OffsetsByIndex tbl (NumEntries tbl - 1) of
        Inl p \<Rightarrow> Some (Inl p)
      | Inr (lastOffsets, tbl1) \<Rightarrow>
     (case GetEntry tbl1 (NumEntries tbl1 - 1) of
        Inl p \<Rightarrow> Some (Inl p)
      | Inr lastEntry \<Rightarrow>
     (let total = EntryOffsetInDecompressed lastOffsets + ucast (DecompressedSize lastEntry) in
      case source_Seek s1 0 SeekStart of
        Inl e \<Rightarrow>
          Some (Inl (Join (Err ''failed to seek to the beginning of the data to calculate total compressed size'') e))
      | Inr (_, s2) \<Rightarrow>
     (case source_Seek s2 0 SeekEnd of
        Inl e \<Rightarrow>
          Some (Inl (Join (Err ''failed to seek to end to calculate total compressed size'') e))
      | Inr (totalDataSize, s3) \<Rightarrow>
     (let totalCompressed = (word_of_int totalDataSize :: 64 word) - word_of_int (Size tbl1) in
      if 0 < NumEntries tbl1
         \<and> totalCompressed < EntryOffsetInCompressed lastOffsets + ucast (CompressedSize lastEntry)
      then Some (Inl (Err ''seek table last entry size mismatch''))
      else Some (Inr \<lparr>reader_r = s3, decoder = dec, reader_seekTable = tbl1,
                       reader_offset = 0,
                       totalCompressedDataSize = totalCompressed,
                       totalUncompressedDataSize = total,
                       currentFrameIndex = 0, currentFrameLoaded = False,
                       currentFrameBuffer = [], currentFrameReaded = 0,
                       currentFrameAvailable = 0, compressedDataBuffer = []\<rparr>))))))))"

text \<open>
  The first half of \<^verbatim>\<open>Seek\<close>, the \<^verbatim>\<open>switch\<close> on \<open>whence\<close>: either the method returns
  at once (\<open>Inl\<close>, with its result) or the new offset is known (\<open>Inr\<close>).
\<close>

definition Seek_target :: "reader \<Rightarrow> 64 word \<Rightarrow> int \<Rightarrow> (error + 64 word) + 64 word" where
  "Seek_target rd off whence =
     (if whence = SeekStart then
        (if off <s 0 then Inl (Inl (Err ''negative offset'')) else Inr off)
      else if whence = SeekCurrent then
        (if off = 0 then Inl (Inr (reader_offset rd))
         else if off <s 0 \<and> reader_offset rd < - off then Inl (Inl (Err ''negative offset''))
         else Inr (reader_offset rd + off))
      else if whence = SeekEnd then
        (if off <s 0 \<and> totalUncompressedDataSize rd < - off then Inl (Inl (Err ''negative offset''))
         else Inr (totalUncompressedDataSize rd + off))
      else Inl (Inl (Err ''invalid whence'')))"

text \<open>
  \<^verbatim>\<open>Seek\<close> returns the new position or an error, and the reader as the call leaves it.
  \<^verbatim>\<open>int(newOffset - frameStartOffset)\<close> reads the difference as a signed number.
\<close>

definition Seek :: "reader \<Rightarrow> 64 word \<Rightarrow> int \<Rightarrow> (error + 64 word) \<times> reader" where
  "Seek rd off whence =
     (case Seek_target rd off whence of
        Inl res \<Rightarrow> (res, rd)
      | Inr newOffset \<Rightarrow>
          if totalUncompressedDataSize rd < newOffset
          then (Inl (Err ''offset beyond end of data''), rd)
          else
            (case Find (reader_seekTable rd) newOffset of
               Inl p \<Rightarrow> (Inl p, rd)
             | Inr ((tableOffsets, found), tbl) \<Rightarrow>
                 (let rd1 = rd\<lparr>reader_seekTable := tbl\<rparr> in
                  if \<not> found then (Inl (Err ''offset beyond end of data''), rd1)
                  else
                    (let frameStartOffset = EntryOffsetInDecompressed tableOffsets;
                         rd2 = (if EntryIndex tableOffsets \<noteq> currentFrameIndex rd1
                                then rd1\<lparr>currentFrameIndex := EntryIndex tableOffsets,
                                         currentFrameLoaded := False\<rparr>
                                else rd1)
                     in (Inr newOffset,
                         rd2\<lparr>currentFrameReaded := sint (newOffset - frameStartOffset),
                             reader_offset := newOffset\<rparr>)))))"

section \<open>The writer\<close>

text \<open>
  The state of \<^verbatim>\<open>writer\<close>; the fields \<^verbatim>\<open>w\<close> and \<^verbatim>\<open>seekTable\<close> carry the prefix
  \<open>writer_\<close>. The encoder is the function \<^verbatim>\<open>EncodeAll\<close> computes: a frame for the bytes
  it is given. \<^verbatim>\<open>make([]byte, 0, frameSize)\<close> panics for a negative size.
\<close>

record writer =
  writer_w :: sink
  frameSize :: int
  frameBuffer :: "byte list"
  encoderBuffer :: "byte list"
  encoder :: "byte list \<Rightarrow> byte list"
  writer_seekTable :: Table
  isClosed :: bool

definition NewWriter ::
  "sink \<Rightarrow> int \<Rightarrow> (error + (byte list \<Rightarrow> byte list)) \<Rightarrow> error + writer" where
  "NewWriter w fs newEncoder =
     (case newEncoder of
        Inl e \<Rightarrow> Inl (Join (Err ''failed to create zstd encoder'') e)
      | Inr enc \<Rightarrow>
          if fs < 0 then Inl (Panic ''makeslice: cap out of range'')
          else Inr \<lparr>writer_w = w, frameSize = fs, frameBuffer = [], encoderBuffer = [],
                    encoder = enc, writer_seekTable = emptyTable, isClosed = False\<rparr>)"

text \<open>
  The two steps every path of the writer shares: encode a frame and hand it to the sink,
  then record the frame in the table. \<open>encodeAndWrite\<close> returns the count and the error of
  the sink.
\<close>

definition encodeAndWrite :: "writer \<Rightarrow> byte list \<Rightarrow> int \<times> error option \<times> writer" where
  "encodeAndWrite c frame =
     (let c1 = c\<lparr>encoderBuffer := encoder c frame\<rparr> in
      case sink_Write (writer_w c1) (encoderBuffer c1) of
        (written, err, w') \<Rightarrow> (written, err, c1\<lparr>writer_w := w'\<rparr>))"

definition appendFrame :: "writer \<Rightarrow> byte list \<Rightarrow> error + writer" where
  "appendFrame c frame =
     (case AppendEntry (writer_seekTable c)
             \<lparr>CompressedSize = word_of_int (int (length (encoderBuffer c))),
              DecompressedSize = word_of_int (int (length frame))\<rparr> of
        Inl p \<Rightarrow> Inl p
      | Inr tbl \<Rightarrow> Inr (c\<lparr>writer_seekTable := tbl\<rparr>))"

text \<open>
  \<^verbatim>\<open>Write\<close> is the loop \<^verbatim>\<open>for len(data) > 0\<close> started with \<open>n = 0\<close>. It returns the count,
  the error and the writer; a panic is the error \<open>Panic\<close>. With a frame size of zero the
  loop does not end, so not returning is \<open>None\<close>.
\<close>

partial_function (option) Write_loop ::
  "writer \<Rightarrow> byte list \<Rightarrow> int \<Rightarrow> (int \<times> error option \<times> writer) option" where
  "Write_loop c data n =
     (if 0 < length data then
        (if length (frameBuffer c) = 0 \<and> frameSize c \<le> int (length data) then
           (if frameSize c < 0 then Some (n, Some (Panic ''slice bounds out of range''), c)
            else
              (let toEncode = take (nat (frameSize c)) data;
                   rest = drop (nat (frameSize c)) data;
                   res = encodeAndWrite c toEncode;
                   written = fst res; err = fst (snd res); c2 = snd (snd res)
               in if err \<noteq> None
                  then Some (n + written,
                             Some (Join (Err ''error while writing frame'') (the err)), c2)
                  else if isl (appendFrame c2 toEncode)
                  then Some (n + written, Some (projl (appendFrame c2 toEncode)), c2)
                  else Write_loop (projr (appendFrame c2 toEncode)) rest (n + written)))
         else
           (let spaceLeft = frameSize c - int (length (frameBuffer c));
                toWrite = min (int (length data)) spaceLeft
            in if toWrite < 0 then Some (n, Some (Panic ''slice bounds out of range''), c)
               else
                 (let c1 = c\<lparr>frameBuffer := frameBuffer c @ take (nat toWrite) data\<rparr>;
                      rest = drop (nat toWrite) data;
                      n1 = n + toWrite
                  in if int (length (frameBuffer c1)) = frameSize c1 then
                       (let res = encodeAndWrite c1 (frameBuffer c1);
                            written = fst res; err = fst (snd res); c2 = snd (snd res)
                        in if err \<noteq> None
                           then Some (n1 - toWrite + written,
                                      Some (Join (Err ''error while writing frame'') (the err)), c2)
                           else if isl (appendFrame c2 (frameBuffer c2))
                           then Some (n1, Some (projl (appendFrame c2 (frameBuffer c2))), c2)
                           else Write_loop ((projr (appendFrame c2 (frameBuffer c2)))\<lparr>frameBuffer := []\<rparr>)
                                  rest n1)
                     else Write_loop c1 rest n1)))
      else Some (n, None, c))"

definition Write :: "writer \<Rightarrow> byte list \<Rightarrow> (int \<times> error option \<times> writer) option" where
  "Write c data = Write_loop c data 0"

text \<open>\<^verbatim>\<open>Close\<close> returns the error and the writer.\<close>

definition Close_flush :: "writer \<Rightarrow> error option \<times> writer" where
  "Close_flush c =
     (if 0 < length (frameBuffer c) then
        (case encodeAndWrite c (frameBuffer c) of
           (_, Some e, c2) \<Rightarrow> (Some (Join (Err ''error while writing final frame'') e), c2)
         | (_, None, c2) \<Rightarrow>
             (case appendFrame c2 (frameBuffer c2) of
                Inl p \<Rightarrow> (Some p, c2)
              | Inr c3 \<Rightarrow> (None, c3\<lparr>frameBuffer := []\<rparr>)))
      else (None, c))"

definition Close :: "writer \<Rightarrow> error option \<times> writer" where
  "Close c =
     (if isClosed c then (None, c)
      else
        (case Close_flush (c\<lparr>isClosed := True\<rparr>) of
           (Some e, c1) \<Rightarrow> (Some e, c1)
         | (None, c1) \<Rightarrow>
             (case WriteTableToWriter (writer_seekTable c1) (writer_w c1) of
                (_, Some e, w') \<Rightarrow>
                  (Some (Join (Err ''error while writing seek table'') e), c1\<lparr>writer_w := w'\<rparr>)
              | (_, None, w') \<Rightarrow> (None, c1\<lparr>writer_w := w'\<rparr>))))"

text \<open>
  A sequence of calls of \<^verbatim>\<open>Write\<close>, up to the first that returns an error: the writer
  after the calls and that error, if any.
\<close>

fun Writes :: "writer \<Rightarrow> byte list list \<Rightarrow> (error option \<times> writer) option" where
  "Writes c [] = Some (None, c)"
| "Writes c (d # ds) =
     (case Write c d of
        None \<Rightarrow> None
      | Some (_, Some e, c') \<Rightarrow> Some (Some e, c')
      | Some (_, None, c') \<Rightarrow> Writes c' ds)"

section \<open>What the table records\<close>

text \<open>
  The entries of a table in order, and the sizes they record, as numbers: the notions the
  properties below are stated with.
\<close>

definition entryAt :: "Table \<Rightarrow> nat \<Rightarrow> TableEntry" where
  "entryAt t i =
     \<lparr>CompressedSize = Uint32 (take 4 (drop (8 * i) (entries t))),
      DecompressedSize = Uint32 (take 4 (drop (8 * i + 4) (entries t)))\<rparr>"

definition entryList :: "Table \<Rightarrow> TableEntry list" where
  "entryList t = map (entryAt t) [0..<nat (NumEntries t)]"

definition decompressedSizes :: "Table \<Rightarrow> nat list" where
  "decompressedSizes t = map (\<lambda>e. unat (DecompressedSize e)) (entryList t)"

definition compressedSizes :: "Table \<Rightarrow> nat list" where
  "compressedSizes t = map (\<lambda>e. unat (CompressedSize e)) (entryList t)"

definition totalDecompressedSize :: "Table \<Rightarrow> nat" where
  "totalDecompressedSize t = sum_list (decompressedSizes t)"

definition totalCompressedSize :: "Table \<Rightarrow> nat" where
  "totalCompressedSize t = sum_list (compressedSizes t)"

text \<open>
  The sizes of the entries that strictly precede entry \<open>i\<close>, summed. \<open>offsetAt\<close> is the
  offset record a scan of the entries computes for entry \<open>i\<close>, with the sums cut to 64
  bits: what the cache of a table holds when it has been computed from the entries the
  table has now.
\<close>

definition decompressedBefore :: "Table \<Rightarrow> nat \<Rightarrow> nat" where
  "decompressedBefore t i = sum_list (take i (decompressedSizes t))"

definition compressedBefore :: "Table \<Rightarrow> nat \<Rightarrow> nat" where
  "compressedBefore t i = sum_list (take i (compressedSizes t))"

definition offsetAt :: "Table \<Rightarrow> nat \<Rightarrow> TableOffset" where
  "offsetAt t i =
     \<lparr>EntryIndex = int i,
      EntryOffsetInCompressed = word_of_nat (compressedBefore t i),
      EntryOffsetInDecompressed = word_of_nat (decompressedBefore t i)\<rparr>"

text \<open>Entry \<open>i\<close> covers the decompressed offset \<open>x\<close>.\<close>

definition entryCovers :: "Table \<Rightarrow> nat \<Rightarrow> nat \<Rightarrow> bool" where
  "entryCovers t i x =
     (decompressedBefore t i \<le> x
      \<and> x < decompressedBefore t i + unat (DecompressedSize (entryAt t i)))"

definition cacheFresh :: "Table \<Rightarrow> bool" where
  "cacheFresh t =
     (if cached t then cachedOffsets t = map (offsetAt t) [0..<nat (NumEntries t)] else True)"

text \<open>The bytes of a serialized table, as \<^verbatim>\<open>WriteTableToWriter\<close> hands them to the sink.\<close>

definition tableBytes :: "Table \<Rightarrow> byte list" where
  "tableBytes t =
     PutUint32 0x184D2A5E @ PutUint32 (word_of_int (int (length (entries t)) + 9))
       @ entries t
       @ PutUint32 (word_of_int (NumEntries t)) @ [0] @ PutUint32 footerMagicNumber"

section \<open>Properties of the table\<close>

lemma Uint32_PutUint32: "Uint32 (PutUint32 v) = v"
proof (rule bit_word_eqI)
  fix n :: nat
  assume "n < LENGTH(32)"
  then consider "n < 8" | "8 \<le> n \<and> n < 16" | "16 \<le> n \<and> n < 24" | "24 \<le> n \<and> n < 32"
    by fastforce
  then show "bit (Uint32 (PutUint32 v)) n = bit v n"
    by cases (auto simp add: Uint32_def PutUint32_def bit_simps)
qed

lemma length_PutUint32 [simp]: "length (PutUint32 v) = 4"
  by (simp add: PutUint32_def)

lemma Uint32_append: "length b = 4 \<Longrightarrow> Uint32 (b @ c) = Uint32 b"
  by (simp add: Uint32_def nth_append)

lemma AppendEntry_entries:
  "AppendEntry t e =
     Inr (t\<lparr>entries := take (nat (NumEntries t * 8)) (entries t)
                          @ PutUint32 (CompressedSize e) @ PutUint32 (DecompressedSize e)
                          @ replicate (length (entries t) mod 8) 0\<rparr>)"
proof -
  let ?n = "length (entries t)"
  have z: "[0, 0, 0, 0, 0, 0, 0, 0] = replicate 8 (0::byte)"
    by (simp add: numeral_eq_Suc)
  have n1: "NumEntries (t\<lparr>entries := entries t @ [0, 0, 0, 0, 0, 0, 0, 0]\<rparr>) - 1 = NumEntries t"
    by (simp add: NumEntries_def)
  have k: "nat (NumEntries t * 8) = ?n - ?n mod 8"
    unfolding NumEntries_def by (simp add: nat_mult_distrib nat_div_distrib minus_mod_eq_div_mult)
  have b: "NumEntries t * 8 + 8 \<le> int (?n + 8)" "0 \<le> NumEntries t * 8"
    by (auto simp: NumEntries_def)
  have k8: "nat (NumEntries t * 8 + 8) = (?n - ?n mod 8) + 8"
    using k b(2) by (simp add: nat_add_distrib)
  have d: "drop (nat (NumEntries t * 8 + 8)) (entries t @ [0, 0, 0, 0, 0, 0, 0, 0])
             = replicate (?n mod 8) 0"
  proof -
    have "?n - ?n mod 8 + 8 - ?n = 8 - ?n mod 8"
      using mod_less_eq_dividend [of ?n 8] by linarith
    moreover have "?n \<le> ?n - ?n mod 8 + 8"
      using mod_less_divisor [of 8 ?n] by linarith
    moreover have "8 - (8 - ?n mod 8) = ?n mod 8"
      using mod_less_divisor [of 8 ?n] by linarith
    ultimately show ?thesis
      unfolding k8 z by simp
  qed
  have t: "take (nat (NumEntries t * 8)) (entries t @ [0, 0, 0, 0, 0, 0, 0, 0])
             = take (nat (NumEntries t * 8)) (entries t)"
    unfolding k by simp
  show ?thesis
    unfolding AppendEntry_def Let_def n1 SetEntry_def
    using b by (simp del: drop_append take_append add: d t)
qed

lemma NumEntries_AppendEntry:
  "AppendEntry t e = Inr t' \<Longrightarrow> NumEntries t' = NumEntries t + 1"
  by (auto simp: AppendEntry_entries NumEntries_def)

lemma nat_NumEntries8: "nat (NumEntries t * 8) = length (entries t) - length (entries t) mod 8"
  unfolding NumEntries_def
  by (simp add: nat_mult_distrib nat_div_distrib minus_mod_eq_div_mult)

lemma GetEntry_AppendEntry_last:
  assumes "AppendEntry t e = Inr t'"
  shows "GetEntry t' (NumEntries t) = Inr e"
proof -
  let ?k = "nat (NumEntries t * 8)"
  let ?pre = "take ?k (entries t)"
  let ?c = "PutUint32 (CompressedSize e)" and ?d = "PutUint32 (DecompressedSize e)"
  let ?r = "replicate (length (entries t) mod 8) (0::byte)"
  have es: "entries t' = ?pre @ ?c @ ?d @ ?r"
    using assms by (auto simp: AppendEntry_entries)
  have lp: "length ?pre = ?k"
    by (simp add: nat_NumEntries8)
  have nn: "0 \<le> NumEntries t"
    by (simp add: NumEntries_def)
  have k4: "nat (NumEntries t * 8 + 4) = ?k + 4"
    using nn by (simp add: nat_add_distrib)
  have c: "take 4 (drop ?k (entries t')) = ?c"
    unfolding es using lp by simp
  have d: "take 4 (drop (?k + 4) (entries t')) = ?d"
    unfolding es using lp by simp
  have len: "NumEntries t * 8 + 8 \<le> int (length (entries t'))"
    unfolding es using lp nn by simp
  show ?thesis
    unfolding GetEntry_def Let_def k4 c d
    using len nn by (simp add: Uint32_PutUint32)
qed

lemma GetEntry_AppendEntry_before:
  assumes "AppendEntry t e = Inr t'" and "i < NumEntries t"
  shows "GetEntry t' i = GetEntry t i"
proof (cases "0 \<le> i")
  case False
  then show ?thesis by (simp add: GetEntry_def)
next
  case True
  let ?k = "nat (NumEntries t * 8)"
  let ?pre = "take ?k (entries t)"
  let ?rest = "PutUint32 (CompressedSize e) @ PutUint32 (DecompressedSize e)
                 @ replicate (length (entries t) mod 8) (0::byte)"
  have es: "entries t' = ?pre @ ?rest"
    using assms(1) by (auto simp: AppendEntry_entries)
  have lp: "length ?pre = ?k"
    by (simp add: nat_NumEntries8)
  have kle: "?k \<le> length (entries t)"
    by (simp add: nat_NumEntries8)
  have i8: "nat (i * 8) + 8 \<le> ?k"
    using True assms(2) by linarith
  have i8len: "i * 8 + 8 \<le> int (length (entries t))"
    using i8 kle True by linarith
  have i8len': "i * 8 + 8 \<le> int (length (entries t'))"
    unfolding es using i8 lp True by simp
  have tk: "\<And>j. j + 4 \<le> ?k \<Longrightarrow> take 4 (drop j (entries t')) = take 4 (drop j (entries t))"
  proof -
    fix j assume j: "j + 4 \<le> ?k"
    have "take 4 (drop j (entries t')) = take 4 (drop j ?pre)"
      unfolding es using j lp by simp
    also have "\<dots> = take 4 (drop j (entries t))"
      using j by (simp add: drop_take min_def)
    finally show "take 4 (drop j (entries t')) = take 4 (drop j (entries t))" .
  qed
  have a: "take 4 (drop (nat (i * 8)) (entries t')) = take 4 (drop (nat (i * 8)) (entries t))"
    using i8 by (intro tk) linarith
  have b: "take 4 (drop (nat (i * 8 + 4)) (entries t')) = take 4 (drop (nat (i * 8 + 4)) (entries t))"
    using i8 True by (intro tk) linarith
  show ?thesis
    unfolding GetEntry_def Let_def a b using i8len i8len' True by simp
qed

section \<open>Appending an entry\<close>

text \<open>
  Claim C10. \<^verbatim>\<open>AppendEntry\<close> never panics. On a table of \<open>n\<close> entries it gives a
  table of \<open>n + 1\<close> entries, \<^verbatim>\<open>GetEntry(n)\<close> returns the appended entry with both
  fields, \<^verbatim>\<open>GetEntry(i)\<close> is unchanged for every \<open>i < n\<close>, and nothing but the entry
  bytes changes: the once-flag and the cached offsets stay as they were.
\<close>

theorem AppendEntry_frame:
  "\<exists>t'. AppendEntry t e = Inr t'
      \<and> NumEntries t' = NumEntries t + 1
      \<and> GetEntry t' (NumEntries t) = Inr e
      \<and> (\<forall>i. i < NumEntries t \<longrightarrow> GetEntry t' i = GetEntry t i)
      \<and> t' = t\<lparr>entries := entries t'\<rparr>
      \<and> cached t' = cached t \<and> cachedOffsets t' = cachedOffsets t"
proof -
  obtain t' where t': "AppendEntry t e = Inr t'"
    by (simp add: AppendEntry_entries)
  have "t' = t\<lparr>entries := entries t'\<rparr>"
    using t' by (auto simp: AppendEntry_entries)
  moreover have "cached t' = cached t" "cachedOffsets t' = cachedOffsets t"
    using t' by (auto simp: AppendEntry_entries)
  ultimately show ?thesis
    using t' NumEntries_AppendEntry [OF t'] GetEntry_AppendEntry_last [OF t']
      GetEntry_AppendEntry_before [OF t']
    by blast
qed

text \<open>The theorem at a table of one entry.\<close>

theorem AppendEntry_frame_witness:
  "\<exists>t'. AppendEntry \<lparr>entries = [1, 0, 0, 0, 2, 0, 0, 0], cached = False, cachedOffsets = []\<rparr>
             \<lparr>CompressedSize = 3, DecompressedSize = 4\<rparr> = Inr t'
      \<and> NumEntries t' = 2
      \<and> GetEntry t' 1 = Inr \<lparr>CompressedSize = 3, DecompressedSize = 4\<rparr>
      \<and> GetEntry t' 0 = Inr \<lparr>CompressedSize = 1, DecompressedSize = 2\<rparr>
      \<and> cached t' = False \<and> cachedOffsets t' = []"
proof -
  let ?t = "\<lparr>entries = [1, 0, 0, 0, 2, 0, 0, 0], cached = False, cachedOffsets = []\<rparr>"
  have n: "NumEntries ?t = 1"
    by (simp add: NumEntries_def)
  have g: "GetEntry ?t 0 = Inr \<lparr>CompressedSize = 1, DecompressedSize = 2\<rparr>"
    by (simp add: GetEntry_def Uint32_def)
  from AppendEntry_frame [of ?t "\<lparr>CompressedSize = 3, DecompressedSize = 4\<rparr>"]
  obtain t' where t': "AppendEntry ?t \<lparr>CompressedSize = 3, DecompressedSize = 4\<rparr> = Inr t'"
      "NumEntries t' = NumEntries ?t + 1"
      "GetEntry t' (NumEntries ?t) = Inr \<lparr>CompressedSize = 3, DecompressedSize = 4\<rparr>"
      "\<forall>i. i < NumEntries ?t \<longrightarrow> GetEntry t' i = GetEntry ?t i"
      "cached t' = cached ?t" "cachedOffsets t' = cachedOffsets ?t"
    by blast
  from t'(4) n have "GetEntry t' 0 = GetEntry ?t 0"
    by simp
  with t' n g show ?thesis
    by simp
qed
section \<open>Where the code departs from its contract\<close>

text \<open>
  Claim C3. \<^verbatim>\<open>ReadTableFromReadSeeker\<close> is to reject a table in which any entry has a
  compressed size of zero. The source does not: the stream below is the serialized
  table of the two entries \<open>(1, 1)\<close> and \<open>(0, 1)\<close>, header and footer well-formed, and it
  is read without an error. The loop of the check runs once per four entries and tests the
  first four bytes of the entry data every time, so only the first entry is ever looked at.
\<close>

theorem ReadTable_accepts_empty_chunk:
  "WriteTableToWriter
       \<lparr>entries = [1, 0, 0, 0, 1, 0, 0, 0, 0, 0, 0, 0, 1, 0, 0, 0],
        cached = False, cachedOffsets = []\<rparr> newBuffer
     = (33, None, \<lparr>sunk = [0x5E, 0x2A, 0x4D, 0x18, 0x19, 0, 0, 0,
                               1, 0, 0, 0, 1, 0, 0, 0,
                               0, 0, 0, 0, 1, 0, 0, 0,
                               2, 0, 0, 0, 0, 0xB1, 0xEA, 0x92, 0x8F], faults = []\<rparr>)
   \<and> entryList \<lparr>entries = [1, 0, 0, 0, 1, 0, 0, 0, 0, 0, 0, 0, 1, 0, 0, 0],
                  cached = False, cachedOffsets = []\<rparr>
     = [\<lparr>CompressedSize = 1, DecompressedSize = 1\<rparr>,
        \<lparr>CompressedSize = 0, DecompressedSize = 1\<rparr>]
   \<and> ReadTableFromReadSeeker
       (newSource [0x5E, 0x2A, 0x4D, 0x18, 0x19, 0, 0, 0,
                   1, 0, 0, 0, 1, 0, 0, 0,
                   0, 0, 0, 0, 1, 0, 0, 0,
                   2, 0, 0, 0, 0, 0xB1, 0xEA, 0x92, 0x8F])
     = Some (Inr (\<lparr>entries = [1, 0, 0, 0, 1, 0, 0, 0, 0, 0, 0, 0, 1, 0, 0, 0],
                     cached = False, cachedOffsets = []\<rparr>,
                  \<lparr>content = [0x5E, 0x2A, 0x4D, 0x18, 0x19, 0, 0, 0,
                              1, 0, 0, 0, 1, 0, 0, 0,
                              0, 0, 0, 0, 1, 0, 0, 0,
                              2, 0, 0, 0, 0, 0xB1, 0xEA, 0x92, 0x8F],
                   pos = 24\<rparr>))"
  by (simp add: WriteTableToWriter_def newBuffer_def sink_Write_def PutUint32_def
      NumEntries_def entryList_def entryAt_def upt_rec
      ReadTableFromReadSeeker_def newSource_def source_Seek_def
      SeekEnd_def SeekStart_def SeekCurrent_def ReadFull_def Let_def
      Uint32_def headerMagicNumber_def footerMagicNumber_def
      emptyChunk_loop.simps firstChunkEmpty_def)

text \<open>
  Claim C4. \<^verbatim>\<open>Seek\<close> from the start is to succeed for every offset up to and including
  the total decompressed size. The source rejects the total itself: the guard
  \<^verbatim>\<open>newOffset > r.totalUncompressedDataSize\<close> lets it pass, and \<^verbatim>\<open>Find\<close> then reports
  no entry for it. The stream below holds one frame of one byte and the table of the one
  entry \<open>(1, 1)\<close>; the reader built on it has the total 1, seeks to 0, and fails to seek
  to 1.
\<close>

theorem Seek_to_end_fails:
  "\<exists>rd. NewReadSeeker (newSource [0xAA,
                                   0x5E, 0x2A, 0x4D, 0x18, 0x11, 0, 0, 0,
                                   1, 0, 0, 0, 1, 0, 0, 0,
                                   1, 0, 0, 0, 0, 0xB1, 0xEA, 0x92, 0x8F]) (Inr dec)
          = Some (Inr rd)
      \<and> totalUncompressedDataSize rd = 1
      \<and> entryList (reader_seekTable rd) = [\<lparr>CompressedSize = 1, DecompressedSize = 1\<rparr>]
      \<and> fst (Seek rd 0 SeekStart) = Inr 0
      \<and> fst (Seek rd 1 SeekStart) = Inl (Err ''offset beyond end of data'')"
  by (simp add: footerMagicNumber_def headerMagicNumber_def NumEntries_def
      NewReadSeeker_def ReadTableFromReadSeeker_def newSource_def source_Seek_def
      SeekEnd_def SeekStart_def SeekCurrent_def ReadFull_def Let_def Uint32_def
      emptyChunk_loop.simps firstChunkEmpty_def OffsetsByIndex_def CacheOffsets_def
      GetEntry_def Size_def zeroTableOffset_def
      entryList_def entryAt_def Seek_def Seek_target_def Find_def word_sless_alt)

text \<open>
  Claim C5. A reader over a stream whose table is valid and has no entry is to be built,
  with a total of 0. The source panics instead: \<^verbatim>\<open>NewReadSeeker\<close> asks for the offsets
  of the entry \<^verbatim>\<open>NumEntries() - 1\<close>, which is \<open>- 1\<close>, before it tests
  \<^verbatim>\<open>NumEntries() > 0\<close>. The stream is the seventeen bytes of the serialized empty table.
\<close>

theorem NewReadSeeker_empty_table_panics:
  "WriteTableToWriter emptyTable newBuffer
     = (17, None, \<lparr>sunk = [0x5E, 0x2A, 0x4D, 0x18, 9, 0, 0, 0,
                               0, 0, 0, 0, 0, 0xB1, 0xEA, 0x92, 0x8F], faults = []\<rparr>)
   \<and> NewReadSeeker (newSource [0x5E, 0x2A, 0x4D, 0x18, 9, 0, 0, 0,
                                0, 0, 0, 0, 0, 0xB1, 0xEA, 0x92, 0x8F]) (Inr dec)
     = Some (Inl (Panic ''index out of range''))"
  by (simp add: WriteTableToWriter_def emptyTable_def newBuffer_def sink_Write_def PutUint32_def
      footerMagicNumber_def headerMagicNumber_def NumEntries_def
      NewReadSeeker_def ReadTableFromReadSeeker_def newSource_def source_Seek_def
      SeekEnd_def SeekStart_def SeekCurrent_def ReadFull_def Let_def Uint32_def
      emptyChunk_loop.simps OffsetsByIndex_def CacheOffsets_def)

text \<open>
  Claim C6. When the sink fails, \<^verbatim>\<open>Write\<close> is to return how many bytes of the caller's
  input it has consumed. The source adds the count the sink returned, which counts bytes
  of the encoded frame. With a frame size of 4, an encoder that puts nine bytes in front
  of the frame, and a sink that fails after seven bytes: on the fast path a call with four
  bytes returns 7; on the buffered path a call with two bytes, after two were buffered,
  returns 7 as well. Without a failure the fast path returns the 13 bytes of the encoded
  frame for 4 bytes of input.
\<close>

theorem Write_count_of_sink_bytes:
  "\<exists>c c1 c2 c3 c4.
      NewWriter \<lparr>sunk = [], faults = [Some 7]\<rparr> 4 (Inr (\<lambda>src. replicate 9 0 @ src)) = Inr c
      \<and> Write c [1, 2, 3, 4]
           = Some (7, Some (Join (Err ''error while writing frame'') (Err ''sink write failed'')), c1)
      \<and> Write c [1, 2] = Some (2, None, c2)
      \<and> Write c2 [3, 4]
           = Some (7, Some (Join (Err ''error while writing frame'') (Err ''sink write failed'')), c3)
      \<and> Write (c\<lparr>writer_w := newBuffer\<rparr>) [1, 2, 3, 4] = Some (13, None, c4)"
  by (simp add: NewWriter_def Write_def Write_loop.simps encodeAndWrite_def sink_Write_def
      Let_def newBuffer_def appendFrame_def AppendEntry_entries)
section \<open>Serializing the table\<close>

lemma sink_Write_ok:
  "sink_Write s p = (m, None, s') \<Longrightarrow> m = int (length p) \<and> sunk s' = sunk s @ p \<and> faults s' = tl (faults s)"
  by (auto simp: sink_Write_def split: list.splits option.splits)

lemma WriteTableToWriter_ok:
  assumes "WriteTableToWriter t w = (n, None, w')"
  shows "n = Size t \<and> sunk w' = sunk w @ tableBytes t"
proof -
  let ?h = "PutUint32 0x184D2A5E @ PutUint32 (word_of_int (int (length (entries t)) + 9))"
  let ?f = "PutUint32 (word_of_int (NumEntries t)) @ [0] @ PutUint32 footerMagicNumber"
  obtain a ea w1 where 1: "sink_Write w ?h = (a, ea, w1)"
    by (cases "sink_Write w ?h") auto
  obtain b eb w2 where 2: "sink_Write w1 (entries t) = (b, eb, w2)"
    by (cases "sink_Write w1 (entries t)") auto
  obtain c ec w3 where 3: "sink_Write w2 ?f = (c, ec, w3)"
    by (cases "sink_Write w2 ?f") auto
  from assms 1 2 3 have r: "ea = None" "eb = None" "ec = None" "n = a + b + c" "w' = w3"
    by (auto simp: WriteTableToWriter_def Let_def split: option.splits)
  from sink_Write_ok [OF 1 [unfolded r]] sink_Write_ok [OF 2 [unfolded r]]
    sink_Write_ok [OF 3 [unfolded r]] r
  show ?thesis
    by (simp add: Size_def tableBytes_def)
qed

lemma WriteTableToWriter_no_faults:
  assumes "faults w = []"
  shows "WriteTableToWriter t w = (Size t, None, w\<lparr>sunk := sunk w @ tableBytes t\<rparr>)"
  using assms by (simp add: WriteTableToWriter_def sink_Write_def Size_def tableBytes_def Let_def)

lemma length_tableBytes: "int (length (tableBytes t)) = Size t"
  by (simp add: tableBytes_def Size_def)

lemma source_Seek_end:
  "0 \<le> int (length (content s)) + off \<Longrightarrow>
   source_Seek s off SeekEnd = Inr (int (length (content s)) + off, s\<lparr>pos := int (length (content s)) + off\<rparr>)"
  by (simp add: source_Seek_def SeekEnd_def SeekStart_def SeekCurrent_def Let_def)

lemma ReadFull_at:
  "0 \<le> pos s \<Longrightarrow> nat (pos s) + n \<le> length (content s) \<Longrightarrow>
   ReadFull s n = Inr (take n (drop (nat (pos s)) (content s)), s\<lparr>pos := pos s + int n\<rparr>)"
  by (auto simp: ReadFull_def)

lemma PutUint32_Uint32:
  fixes a b c d :: byte
  shows "PutUint32 (Uint32 [a, b, c, d]) = [a, b, c, d]"
proof -
  let ?v = "Uint32 [a, b, c, d]"
  have 0: "ucast ?v = a"
    by (rule bit_word_eqI) (auto simp add: Uint32_def bit_simps dest: bit_imp_le_length)
  have 1: "ucast (drop_bit 8 ?v) = b"
    by (rule bit_word_eqI) (auto simp add: Uint32_def bit_simps dest: bit_imp_le_length)
  have 2: "ucast (drop_bit 16 ?v) = c"
    by (rule bit_word_eqI) (auto simp add: Uint32_def bit_simps dest: bit_imp_le_length)
  have 3: "ucast (drop_bit 24 ?v) = d"
    by (rule bit_word_eqI) (auto simp add: Uint32_def bit_simps dest: bit_imp_le_length)
  show ?thesis
    unfolding PutUint32_def 0 1 2 3 ..
qed

lemma PutUint32_zero: "PutUint32 0 = [0, 0, 0, 0]"
  by (simp add: PutUint32_def)

lemma Uint32_eq_0:
  fixes a b c d :: byte
  shows "Uint32 [a, b, c, d] = 0 \<longleftrightarrow> a = 0 \<and> b = 0 \<and> c = 0 \<and> d = 0"
proof
  assume "Uint32 [a, b, c, d] = 0"
  then have "PutUint32 (Uint32 [a, b, c, d]) = [0, 0, 0, 0]"
    by (simp add: PutUint32_zero)
  then show "a = 0 \<and> b = 0 \<and> c = 0 \<and> d = 0"
    by (simp add: PutUint32_Uint32)
next
  assume "a = 0 \<and> b = 0 \<and> c = 0 \<and> d = 0"
  then show "Uint32 [a, b, c, d] = 0"
    by (simp add: Uint32_def)
qed

lemma take4:
  "4 \<le> length xs \<Longrightarrow> take 4 xs = [xs ! 0, xs ! 1, xs ! 2, xs ! 3]"
  by (auto simp: numeral_eq_Suc Suc_le_length_iff)

lemma firstChunkEmpty_Uint32:
  assumes "4 \<le> length d"
  shows "firstChunkEmpty d = Inr (Uint32 (take 4 d) = 0)"
  using assms unfolding take4 [OF assms] Uint32_eq_0
  by (auto simp: firstChunkEmpty_def)

lemma emptyChunk_loop_passes:
  assumes "firstChunkEmpty d = Inr False" and "unat N + 4 \<le> 2 ^ 32"
  shows "emptyChunk_loop d N i = Some None"
proof (induction "unat N - unat i" arbitrary: i rule: less_induct)
  case less
  show ?case
  proof (cases "i < N")
    case False
    then show ?thesis
      by (subst emptyChunk_loop.simps) simp
  next
    case True
    then have lt: "unat i < unat N"
      by (simp add: word_less_nat_alt)
    have "unat (i + 4) = unat i + 4"
      using lt assms(2) by (simp add: unat_word_ariths)
    then have "unat N - unat (i + 4) < unat N - unat i"
      using lt by simp
    from less [OF this] show ?thesis
      by (subst emptyChunk_loop.simps) (simp add: True assms(1))
  qed
qed

lemma NumEntries_dvd: "8 dvd length (entries t) \<Longrightarrow> NumEntries t * 8 = int (length (entries t))"
  unfolding NumEntries_def by (metis dvd_div_mult_self int_dvd_int_iff of_nat_numeral)

lemma uint_word_of_int_32:
  "0 \<le> x \<Longrightarrow> x < 2 ^ 32 \<Longrightarrow> uint (word_of_int x :: 32 word) = x"
  by (simp add: uint_word_of_int take_bit_int_eq_self)

lemma ReadTable_tableBytes:
  assumes dvd: "8 dvd length (entries t)" and sz: "Size t < 2 ^ 32"
      and ne: "entries t \<noteq> [] \<Longrightarrow> firstChunkEmpty (entries t) = Inr False"
  shows "ReadTableFromReadSeeker (newSource (pre @ tableBytes t))
         = Some (Inr (\<lparr>entries = entries t, cached = False, cachedOffsets = []\<rparr>,
                      \<lparr>content = pre @ tableBytes t,
                       pos = int (length pre) + 8 + int (length (entries t))\<rparr>))"
proof -
  define m where "m = length (entries t)"
  define N :: "32 word" where "N = word_of_int (NumEntries t)"
  define bs where "bs = pre @ tableBytes t"
  define H where "H = PutUint32 0x184D2A5E @ PutUint32 (word_of_int (int m + 9))"
  define F where "F = PutUint32 N @ [0] @ PutUint32 footerMagicNumber"
  have bs: "bs = pre @ H @ entries t @ F"
    by (simp add: bs_def tableBytes_def H_def F_def m_def N_def)
  have lH: "length H = 8" and lF: "length F = 9"
    by (simp_all add: H_def F_def)
  have len: "length bs = length pre + m + 17"
    by (simp add: bs lH lF m_def)
  have m32: "int m + 17 < 2 ^ 32"
    using sz by (simp add: Size_def m_def)
  have N8: "N * 8 = word_of_int (int m)"
    unfolding N_def m_def NumEntries_dvd [OF dvd, symmetric] by simp
  have usz: "uint (8 + (N * 8) + 9) = int m + 17"
  proof -
    have "8 + (N * 8) + 9 = (word_of_int (int m + 17) :: 32 word)"
      unfolding N8 by simp
    moreover have "uint (word_of_int (int m + 17) :: 32 word) = int m + 17"
      using m32 by (intro uint_word_of_int_32) auto
    ultimately show ?thesis by (simp only:)
  qed
  have uN8: "unat (N * 8) = m"
  proof -
    have "uint (word_of_int (int m) :: 32 word) = int m"
      using m32 by (intro uint_word_of_int_32) auto
    then show ?thesis
      unfolding N8 by (simp add: unat_eq_nat_uint)
  qed
  have uN: "unat N + 4 \<le> 2 ^ 32"
  proof -
    have "0 \<le> NumEntries t" "NumEntries t < 2 ^ 29"
      using m32 by (auto simp: NumEntries_def m_def)
    then have "uint N = NumEntries t"
      unfolding N_def by (intro uint_word_of_int_32) auto
    then show ?thesis
      using \<open>NumEntries t < 2 ^ 29\<close> by (simp add: unat_eq_nat_uint)
  qed
  let ?d1 = "\<lparr>content = bs, pos = int (length bs) + - 9\<rparr>"
  have A: "source_Seek (newSource bs) (- 9) SeekEnd = Inr (int (length bs) + - 9, ?d1)"
    using source_Seek_end [of "newSource bs" "- 9"] by (simp add: newSource_def len)
  let ?d2 = "\<lparr>content = bs, pos = int (length bs)\<rparr>"
  have B: "ReadFull ?d1 9 = Inr (F, ?d2)"
    using ReadFull_at [of ?d1 9] by (simp add: len bs lH lF m_def)
  have C1: "Uint32 (take 4 F) = N"
    by (simp add: F_def Uint32_PutUint32)
  have C2: "Uint32 (take 4 (drop 5 F)) = footerMagicNumber"
    by (simp add: F_def Uint32_PutUint32)
  let ?d3 = "\<lparr>content = bs, pos = int (length pre)\<rparr>"
  have E: "source_Seek ?d2 (- (int m + 17)) SeekEnd = Inr (int (length pre), ?d3)"
    using source_Seek_end [of ?d2 "- (int m + 17)"] by (simp add: len)
  let ?d4 = "\<lparr>content = bs, pos = int (length pre) + 8\<rparr>"
  have Fr: "ReadFull ?d3 8 = Inr (H, ?d4)"
    using ReadFull_at [of ?d3 8] by (simp add: len bs lH lF m_def)
  have G1: "Uint32 (take 4 H) = headerMagicNumber"
    by (simp add: H_def Uint32_PutUint32 headerMagicNumber_def)
  have G2: "Uint32 (take 4 (drop 4 H)) = N * 8 + 9"
    unfolding N8 by (simp add: H_def Uint32_PutUint32)
  let ?d5 = "\<lparr>content = bs, pos = int (length pre) + 8 + int m\<rparr>"
  have Hr: "ReadFull ?d4 m = Inr (entries t, ?d5)"
    using ReadFull_at [of ?d4 m] by (simp add: len bs lH lF m_def nat_add_distrib)
  have I: "emptyChunk_loop (entries t) N 0 = Some None"
  proof (cases "entries t = []")
    case True
    then have "N = 0"
      by (simp add: N_def NumEntries_def)
    then show ?thesis
      by (subst emptyChunk_loop.simps) simp
  next
    case False
    from emptyChunk_loop_passes [OF ne [OF False] uN] show ?thesis .
  qed
  show ?thesis
    unfolding bs_def [symmetric] m_def [symmetric] ReadTableFromReadSeeker_def
    by (simp only: A B C1 C2 usz E Fr G1 G2 uN8 Hr I Let_def sum.case prod.case option.case
        simp_thms if_True if_False)
qed

lemma tableBytes_header_magic: "take 4 (tableBytes t) = [0x5E, 0x2A, 0x4D, 0x18]"
  by (simp add: tableBytes_def PutUint32_def)

lemma tableBytes_header_size:
  "take 4 (drop 4 (tableBytes t)) = PutUint32 (word_of_int (int (length (entries t)) + 9))"
  by (simp add: tableBytes_def)

lemma tableBytes_footer_count:
  "take 4 (drop (length (tableBytes t) - 9) (tableBytes t)) = PutUint32 (word_of_int (NumEntries t))"
  by (simp add: tableBytes_def)

lemma tableBytes_footer_descriptor: "tableBytes t ! (length (tableBytes t) - 5) = 0"
  by (simp add: tableBytes_def nth_append)

lemma tableBytes_footer_magic:
  "take 4 (drop (length (tableBytes t) - 4) (tableBytes t)) = [0xB1, 0xEA, 0x92, 0x8F]"
  by (simp add: tableBytes_def PutUint32_def footerMagicNumber_def)

lemma emptyTable_whole: "8 dvd length (entries emptyTable)"
  by (simp add: emptyTable_def)

lemma AppendEntry_whole:
  "8 dvd length (entries t) \<Longrightarrow> AppendEntry t e = Inr t' \<Longrightarrow> 8 dvd length (entries t')"
  by (auto simp: AppendEntry_entries nat_NumEntries8 dvd_eq_mod_eq_0)

subsection \<open>The layout of the serialized table\<close>

text \<open>
  Claim C9, for a table that holds whole entries and whose declared size \<open>count * 8 + 9\<close>
  fits the 32-bit field. \<^verbatim>\<open>Size()\<close> is \<open>count * 8 + 17\<close>; a call of
  \<^verbatim>\<open>WriteTableToWriter\<close> that returns no error returns that count and has appended that
  many bytes to the sink: first the header magic \<^verbatim>\<open>0x184D2A5E\<close>, least significant byte
  first, and the declared size, last the nine bytes of the footer: the entry count, the
  descriptor byte 0 and the footer magic \<^verbatim>\<open>0x8F92EAB1\<close>.
\<close>

theorem WriteTableToWriter_layout:
  assumes "8 dvd length (entries t)" and "NumEntries t * 8 + 9 < 2 ^ 32"
      and "WriteTableToWriter t w = (n, None, w')"
  shows "Size t = NumEntries t * 8 + 17
       \<and> n = NumEntries t * 8 + 17
       \<and> (\<exists>body. sunk w' = sunk w @ body
             \<and> int (length body) = NumEntries t * 8 + 17
             \<and> take 4 body = [0x5E, 0x2A, 0x4D, 0x18]
             \<and> uint (Uint32 (take 4 (drop 4 body))) = NumEntries t * 8 + 9
             \<and> uint (Uint32 (take 4 (drop (length body - 9) body))) = NumEntries t
             \<and> body ! (length body - 5) = 0
             \<and> take 4 (drop (length body - 4) body) = [0xB1, 0xEA, 0x92, 0x8F])"
proof -
  note m = NumEntries_dvd [OF assms(1)]
  have sz: "Size t = NumEntries t * 8 + 17"
    by (simp add: Size_def m)
  from WriteTableToWriter_ok [OF assms(3)]
  have n: "n = Size t" and s: "sunk w' = sunk w @ tableBytes t"
    by simp_all
  have n0: "0 \<le> NumEntries t"
    by (simp add: NumEntries_def)
  have a: "uint (Uint32 (take 4 (drop 4 (tableBytes t)))) = NumEntries t * 8 + 9"
    unfolding tableBytes_header_size Uint32_PutUint32 m [symmetric]
    using assms(2) n0 by (intro uint_word_of_int_32) auto
  have b: "uint (Uint32 (take 4 (drop (length (tableBytes t) - 9) (tableBytes t)))) = NumEntries t"
    unfolding tableBytes_footer_count Uint32_PutUint32
    using assms(2) n0 by (intro uint_word_of_int_32) auto
  show ?thesis
    using sz n s a b length_tableBytes [of t] tableBytes_header_magic [of t]
      tableBytes_footer_descriptor [of t] tableBytes_footer_magic [of t]
    by (intro conjI exI [of _ "tableBytes t"]) simp_all
qed

text \<open>The theorem at the table of the one entry \<open>(3, 7)\<close>, written to an empty buffer.\<close>

theorem WriteTableToWriter_layout_witness:
  "Size \<lparr>entries = [3, 0, 0, 0, 7, 0, 0, 0], cached = False, cachedOffsets = []\<rparr> = 25
   \<and> (\<exists>body. sunk \<lparr>sunk = [0x5E, 0x2A, 0x4D, 0x18, 0x11, 0, 0, 0,
                                3, 0, 0, 0, 7, 0, 0, 0,
                                1, 0, 0, 0, 0, 0xB1, 0xEA, 0x92, 0x8F], faults = []\<rparr> = body
         \<and> int (length body) = 25
         \<and> uint (Uint32 (take 4 (drop 4 body))) = 17
         \<and> uint (Uint32 (take 4 (drop (length body - 9) body))) = 1)"
proof -
  let ?t = "\<lparr>entries = [3, 0, 0, 0, 7, 0, 0, 0], cached = False, cachedOffsets = []\<rparr>"
  let ?w = "\<lparr>sunk = [0x5E, 0x2A, 0x4D, 0x18, 0x11, 0, 0, 0,
                    3, 0, 0, 0, 7, 0, 0, 0,
                    1, 0, 0, 0, 0, 0xB1, 0xEA, 0x92, 0x8F], faults = []\<rparr>"
  have "length (entries ?t) = 8 * 1"
    by simp
  then have 1: "8 dvd length (entries ?t)"
    by (simp only: dvd_triv_left)
  have 2: "NumEntries ?t * 8 + 9 < 2 ^ 32"
    and 3: "WriteTableToWriter ?t newBuffer = (25, None, ?w)"
    by (simp_all add: WriteTableToWriter_def newBuffer_def sink_Write_def PutUint32_def
        footerMagicNumber_def NumEntries_def)
  from WriteTableToWriter_layout [OF 1 2 3] show ?thesis
    by (simp add: NumEntries_def newBuffer_def)
qed

text \<open>
  Without the bound the declared size is not \<open>count * 8 + 9\<close>: the field is
  \<^verbatim>\<open>uint32(len(t.entries)+9)\<close>. A table of 536870911 entries has 4294967288 entry bytes;
  the write succeeds and the field holds 1, not 4294967297.
\<close>

theorem WriteTableToWriter_declared_size_wraps:
  "NumEntries \<lparr>entries = replicate 4294967288 0, cached = False, cachedOffsets = []\<rparr> * 8 + 9
     = 4294967297
   \<and> fst (snd (WriteTableToWriter
        \<lparr>entries = replicate 4294967288 0, cached = False, cachedOffsets = []\<rparr> newBuffer)) = None
   \<and> uint (Uint32 (take 4 (drop 4 (sunk (snd (snd (WriteTableToWriter
        \<lparr>entries = replicate 4294967288 0, cached = False, cachedOffsets = []\<rparr> newBuffer))))))) = 1"
proof -
  let ?t = "\<lparr>entries = replicate 4294967288 0, cached = False, cachedOffsets = []\<rparr>"
  have w: "WriteTableToWriter ?t newBuffer
             = (Size ?t, None, newBuffer\<lparr>sunk := sunk newBuffer @ tableBytes ?t\<rparr>)"
    by (rule WriteTableToWriter_no_faults) (simp add: newBuffer_def)
  have "uint (Uint32 (take 4 (drop 4 (tableBytes ?t)))) = 1"
    unfolding tableBytes_header_size Uint32_PutUint32 by simp
  then show ?thesis
    unfolding w by (simp add: NumEntries_def newBuffer_def)
qed

subsection \<open>Writing a table and reading it back\<close>

text \<open>
  Claim C8, for a table that holds whole entries, whose serialized size fits 32 bits and
  in which every entry has a compressed size other than zero. What a successful
  \<^verbatim>\<open>WriteTableToWriter\<close> leaves in the sink, whatever the sink held before,
  \<^verbatim>\<open>ReadTableFromReadSeeker\<close> reads back as a table with the same number of entries,
  the same entries in order, and the same result of \<^verbatim>\<open>GetEntry\<close> at every index of
  the table.
\<close>

theorem write_read_round_trip:
  assumes "8 dvd length (entries t)" and "Size t < 2 ^ 32"
      and "\<forall>e \<in> set (entryList t). CompressedSize e \<noteq> 0"
      and "WriteTableToWriter t w = (n, None, w')"
  shows "\<exists>t' s'. ReadTableFromReadSeeker (newSource (sunk w')) = Some (Inr (t', s'))
           \<and> NumEntries t' = NumEntries t
           \<and> entryList t' = entryList t
           \<and> (\<forall>i. 0 \<le> i \<and> i < NumEntries t \<longrightarrow> GetEntry t' i = GetEntry t i)"
proof -
  from WriteTableToWriter_ok [OF assms(4)]
  have s: "sunk w' = sunk w @ tableBytes t"
    by simp
  have ne: "firstChunkEmpty (entries t) = Inr False" if "entries t \<noteq> []"
  proof -
    from assms(1) obtain k where k: "length (entries t) = 8 * k"
      by (auto elim: dvdE)
    with that have "k \<noteq> 0"
      by (cases k) auto
    with k have l: "8 \<le> length (entries t)"
      by simp
    then have "0 < nat (NumEntries t)"
      by (simp add: NumEntries_def)
    then have "entryAt t 0 \<in> set (entryList t)"
      by (auto simp: entryList_def)
    with assms(3) have "Uint32 (take 4 (entries t)) \<noteq> 0"
      by (auto simp: entryAt_def)
    then show ?thesis
      using l by (simp add: firstChunkEmpty_Uint32)
  qed
  let ?t' = "\<lparr>entries = entries t, cached = False, cachedOffsets = []\<rparr>"
  have r: "ReadTableFromReadSeeker (newSource (sunk w @ tableBytes t))
             = Some (Inr (?t', \<lparr>content = sunk w @ tableBytes t,
                                 pos = int (length (sunk w)) + 8 + int (length (entries t))\<rparr>))"
    using ne by (rule ReadTable_tableBytes [OF assms(1) assms(2)])
  have "NumEntries ?t' = NumEntries t" "\<And>i. GetEntry ?t' i = GetEntry t i"
    "entryList ?t' = entryList t"
    by (simp_all add: NumEntries_def GetEntry_def entryList_def entryAt_def Let_def)
  then show ?thesis
    unfolding s r by simp
qed

text \<open>The theorem at the table of the two entries \<open>(3, 7)\<close> and \<open>(1, 2)\<close>.\<close>

theorem write_read_round_trip_witness:
  "\<exists>t' s'. ReadTableFromReadSeeker
               (newSource [0x5E, 0x2A, 0x4D, 0x18, 0x19, 0, 0, 0,
                           3, 0, 0, 0, 7, 0, 0, 0,
                           1, 0, 0, 0, 2, 0, 0, 0,
                           2, 0, 0, 0, 0, 0xB1, 0xEA, 0x92, 0x8F]) = Some (Inr (t', s'))
      \<and> NumEntries t' = 2
      \<and> GetEntry t' 0 = Inr \<lparr>CompressedSize = 3, DecompressedSize = 7\<rparr>
      \<and> GetEntry t' 1 = Inr \<lparr>CompressedSize = 1, DecompressedSize = 2\<rparr>"
proof -
  let ?t = "\<lparr>entries = [3, 0, 0, 0, 7, 0, 0, 0, 1, 0, 0, 0, 2, 0, 0, 0],
             cached = False, cachedOffsets = []\<rparr>"
  let ?w = "\<lparr>sunk = [0x5E, 0x2A, 0x4D, 0x18, 0x19, 0, 0, 0,
                    3, 0, 0, 0, 7, 0, 0, 0,
                    1, 0, 0, 0, 2, 0, 0, 0,
                    2, 0, 0, 0, 0, 0xB1, 0xEA, 0x92, 0x8F], faults = []\<rparr>"
  have "length (entries ?t) = 8 * 2"
    by simp
  then have 1: "8 dvd length (entries ?t)"
    by (simp only: dvd_triv_left)
  have 2: "Size ?t < 2 ^ 32"
    and 3: "\<forall>e \<in> set (entryList ?t). CompressedSize e \<noteq> 0"
    and 4: "WriteTableToWriter ?t newBuffer = (33, None, ?w)"
    by (simp_all add: Size_def entryList_def entryAt_def Uint32_def upt_rec
        WriteTableToWriter_def newBuffer_def
        sink_Write_def PutUint32_def footerMagicNumber_def NumEntries_def)
  have g: "GetEntry ?t 0 = Inr \<lparr>CompressedSize = 3, DecompressedSize = 7\<rparr>"
    "GetEntry ?t 1 = Inr \<lparr>CompressedSize = 1, DecompressedSize = 2\<rparr>"
    "NumEntries ?t = 2"
    by (simp_all add: GetEntry_def Uint32_def NumEntries_def)
  from write_read_round_trip [OF 1 2 3 4] g show ?thesis
    by auto
qed

text \<open>
  An entry with a compressed size of zero does not survive the round trip: the table of
  the one entry \<open>(0, 5)\<close> is written without an error and rejected when read.
\<close>

theorem round_trip_rejects_empty_first_chunk:
  "WriteTableToWriter \<lparr>entries = [0, 0, 0, 0, 5, 0, 0, 0], cached = False, cachedOffsets = []\<rparr>
       newBuffer
     = (25, None, \<lparr>sunk = [0x5E, 0x2A, 0x4D, 0x18, 0x11, 0, 0, 0,
                               0, 0, 0, 0, 5, 0, 0, 0,
                               1, 0, 0, 0, 0, 0xB1, 0xEA, 0x92, 0x8F], faults = []\<rparr>)
   \<and> ReadTableFromReadSeeker
       (newSource [0x5E, 0x2A, 0x4D, 0x18, 0x11, 0, 0, 0,
                   0, 0, 0, 0, 5, 0, 0, 0,
                   1, 0, 0, 0, 0, 0xB1, 0xEA, 0x92, 0x8F])
     = Some (Inl (Join ErrInvalidSeekTable (Err ''seek table contains empty chunk entry'')))"
  by (simp add: WriteTableToWriter_def newBuffer_def sink_Write_def PutUint32_def
      NumEntries_def ReadTableFromReadSeeker_def newSource_def source_Seek_def
      SeekEnd_def SeekStart_def SeekCurrent_def ReadFull_def Let_def
      Uint32_def headerMagicNumber_def footerMagicNumber_def
      emptyChunk_loop.simps firstChunkEmpty_def)

text \<open>
  Nor does a table whose serialized size does not fit 32 bits. With 536870910 entries, all
  with sizes other than zero, the size is \<open>2 ^ 32 + 1\<close>; the reader computes
  \<^verbatim>\<open>8 + (numEntries * 8) + 9\<close> on \<^verbatim>\<open>uint32\<close>, which is 1, seeks to the last byte and
  finds no header there.
\<close>

lemma round_trip_size_wraps:
  "Size \<lparr>entries = replicate 4294967280 1, cached = False, cachedOffsets = []\<rparr> = 4294967297
   \<and> fst (snd (WriteTableToWriter
        \<lparr>entries = replicate 4294967280 1, cached = False, cachedOffsets = []\<rparr> newBuffer)) = None
   \<and> ReadTableFromReadSeeker (newSource (sunk (snd (snd (WriteTableToWriter
        \<lparr>entries = replicate 4294967280 1, cached = False, cachedOffsets = []\<rparr> newBuffer)))))
     = Some (Inl (Join (Err ''error while reading seek table header'') ErrUnexpectedEOF))"
proof -
  let ?t = "\<lparr>entries = replicate 4294967280 1, cached = False, cachedOffsets = []\<rparr>"
  define bs where "bs = tableBytes ?t"
  have w: "WriteTableToWriter ?t newBuffer
             = (Size ?t, None, newBuffer\<lparr>sunk := sunk newBuffer @ tableBytes ?t\<rparr>)"
    by (rule WriteTableToWriter_no_faults) (simp add: newBuffer_def)
  have len: "length bs = 4294967297"
    using length_tableBytes [of ?t] by (simp add: bs_def Size_def)
  have N: "NumEntries ?t = 536870910"
    by (simp add: NumEntries_def)
  let ?F = "PutUint32 (536870910 :: 32 word) @ [0] @ PutUint32 footerMagicNumber"
  have foot: "take 9 (drop 4294967288 bs) = ?F"
    by (simp add: bs_def tableBytes_def N)
  let ?d1 = "\<lparr>content = bs, pos = 4294967288\<rparr>"
  have A: "source_Seek (newSource bs) (- 9) SeekEnd = Inr (4294967288, ?d1)"
    using source_Seek_end [of "newSource bs" "- 9"] by (simp add: newSource_def len)
  let ?d2 = "\<lparr>content = bs, pos = 4294967297\<rparr>"
  have B: "ReadFull ?d1 9 = Inr (?F, ?d2)"
    using ReadFull_at [of ?d1 9] by (simp add: len foot)
  have C1: "Uint32 (take 4 ?F) = 536870910"
    by (simp add: Uint32_PutUint32)
  have C2: "Uint32 (take 4 (drop 5 ?F)) = footerMagicNumber"
    by (simp add: Uint32_PutUint32)
  have usz: "uint (8 + ((536870910 :: 32 word) * 8) + 9) = 1"
    by simp
  let ?d3 = "\<lparr>content = bs, pos = 4294967296\<rparr>"
  have E: "source_Seek ?d2 (- 1) SeekEnd = Inr (4294967296, ?d3)"
    using source_Seek_end [of ?d2 "- 1"] by (simp add: len)
  have Fr: "ReadFull ?d3 8 = Inl ErrUnexpectedEOF"
    by (simp add: ReadFull_def len)
  have r: "ReadTableFromReadSeeker (newSource bs)
           = Some (Inl (Join (Err ''error while reading seek table header'') ErrUnexpectedEOF))"
    unfolding ReadTableFromReadSeeker_def
    by (simp only: A B C1 C2 usz E Fr Let_def sum.case prod.case option.case
        simp_thms if_True if_False)
  show ?thesis
    unfolding w using r by (simp add: Size_def newBuffer_def bs_def)
qed
section \<open>Searching the table\<close>

text \<open>
  \<^verbatim>\<open>Find\<close> searches the cached offsets. The lemmas of this section describe the cache a scan
  of the entries computes, and what the two searches return on such a cache when the sum
  of the decompressed sizes stays below \<open>2 ^ 64\<close>, so that no offset has wrapped.
\<close>

declare Find_binary.simps [simp del]

lemma NumEntries_nonneg: "0 \<le> NumEntries t"
  by (simp add: NumEntries_def)

lemma GetEntry_entryAt:
  assumes "i < nat (NumEntries t)"
  shows "GetEntry t (int i) = Inr (entryAt t i)"
proof -
  from assms have "int i < int (length (entries t)) div 8"
    by (simp add: NumEntries_def)
  then have "int i * 8 + 8 \<le> int (length (entries t))"
    by linarith
  moreover have "nat (int i * 8) = 8 * i" "nat (int i * 8 + 4) = 8 * i + 4"
    by (simp_all add: nat_mult_distrib nat_add_distrib)
  ultimately show ?thesis
    by (simp add: GetEntry_def entryAt_def Let_def)
qed

lemma length_entryList [simp]: "length (entryList t) = nat (NumEntries t)"
  by (simp add: entryList_def)

lemma length_decompressedSizes [simp]: "length (decompressedSizes t) = nat (NumEntries t)"
  by (simp add: decompressedSizes_def)

lemma length_compressedSizes [simp]: "length (compressedSizes t) = nat (NumEntries t)"
  by (simp add: compressedSizes_def)

lemma decompressedSizes_nth:
  "i < nat (NumEntries t) \<Longrightarrow> decompressedSizes t ! i = unat (DecompressedSize (entryAt t i))"
  by (simp add: decompressedSizes_def entryList_def)

lemma compressedSizes_nth:
  "i < nat (NumEntries t) \<Longrightarrow> compressedSizes t ! i = unat (CompressedSize (entryAt t i))"
  by (simp add: compressedSizes_def entryList_def)

lemma decompressedBefore_Suc:
  "i < nat (NumEntries t) \<Longrightarrow>
   decompressedBefore t (Suc i) = decompressedBefore t i + unat (DecompressedSize (entryAt t i))"
  by (simp add: decompressedBefore_def take_Suc_conv_app_nth decompressedSizes_nth)

lemma compressedBefore_Suc:
  "i < nat (NumEntries t) \<Longrightarrow>
   compressedBefore t (Suc i) = compressedBefore t i + unat (CompressedSize (entryAt t i))"
  by (simp add: compressedBefore_def take_Suc_conv_app_nth compressedSizes_nth)

lemma sum_list_take_mono:
  fixes xs :: "nat list"
  shows "i \<le> j \<Longrightarrow> sum_list (take i xs) \<le> sum_list (take j xs)"
proof -
  assume "i \<le> j"
  then obtain d where "j = i + d"
    using le_Suc_ex by blast
  then show ?thesis
    by (simp add: take_add)
qed

lemma decompressedBefore_mono: "i \<le> j \<Longrightarrow> decompressedBefore t i \<le> decompressedBefore t j"
  unfolding decompressedBefore_def by (rule sum_list_take_mono)

lemma compressedBefore_mono: "i \<le> j \<Longrightarrow> compressedBefore t i \<le> compressedBefore t j"
  unfolding compressedBefore_def by (rule sum_list_take_mono)

lemma decompressedBefore_total:
  "decompressedBefore t (nat (NumEntries t)) = totalDecompressedSize t"
  by (simp add: decompressedBefore_def totalDecompressedSize_def)

lemma compressedBefore_total:
  "compressedBefore t (nat (NumEntries t)) = totalCompressedSize t"
  by (simp add: compressedBefore_def totalCompressedSize_def)

lemma decompressedBefore_0 [simp]: "decompressedBefore t 0 = 0"
  by (simp add: decompressedBefore_def)

lemma compressedBefore_0 [simp]: "compressedBefore t 0 = 0"
  by (simp add: compressedBefore_def)

lemma ucast_unat_64: "(ucast (w :: 32 word) :: 64 word) = word_of_nat (unat w)"
  by simp

lemma CacheOffsets_loop_scan:
  assumes "i \<le> nat (NumEntries t)" and "length offs = nat (NumEntries t)"
  shows "CacheOffsets_loop t (int i) (word_of_nat (compressedBefore t i))
           (word_of_nat (decompressedBefore t i)) offs
         = Inr (take i offs @ map (offsetAt t) [i..<nat (NumEntries t)])"
  using assms
proof (induction "nat (NumEntries t) - i" arbitrary: i offs)
  case 0
  then have "i = nat (NumEntries t)"
    by simp
  then have "\<not> int i < NumEntries t"
    by simp
  then show ?case
    using 0 by (subst CacheOffsets_loop.simps) simp
next
  case (Suc k)
  then have lt: "i < nat (NumEntries t)"
    by simp
  then have lt': "int i < NumEntries t"
    by simp
  let ?o = "\<lparr>EntryIndex = int i,
             EntryOffsetInCompressed = word_of_nat (compressedBefore t i),
             EntryOffsetInDecompressed = word_of_nat (decompressedBefore t i)\<rparr>"
  have c: "(word_of_nat (compressedBefore t i) :: 64 word) + ucast (CompressedSize (entryAt t i))
             = word_of_nat (compressedBefore t (Suc i))"
    by (simp add: compressedBefore_Suc [OF lt])
  have d: "(word_of_nat (decompressedBefore t i) :: 64 word) + ucast (DecompressedSize (entryAt t i))
             = word_of_nat (decompressedBefore t (Suc i))"
    by (simp add: decompressedBefore_Suc [OF lt])
  have i1: "int i + 1 = int (Suc i)"
    by simp
  have step: "CacheOffsets_loop t (int i) (word_of_nat (compressedBefore t i))
                (word_of_nat (decompressedBefore t i)) offs
              = CacheOffsets_loop t (int (Suc i)) (word_of_nat (compressedBefore t (Suc i)))
                  (word_of_nat (decompressedBefore t (Suc i))) (offs[i := ?o])"
    apply (subst CacheOffsets_loop.simps)
    apply (simp only: lt' if_True GetEntry_entryAt [OF lt] sum.case c d i1)
    using lt lt' Suc.prems(2) NumEntries_nonneg [of t] apply simp
    done
  have "k = nat (NumEntries t) - Suc i"
    using Suc.hyps(2) by simp
  from Suc.hyps(1) [OF this] lt Suc.prems(2)
  have "CacheOffsets_loop t (int (Suc i)) (word_of_nat (compressedBefore t (Suc i)))
          (word_of_nat (decompressedBefore t (Suc i))) (offs[i := ?o])
        = Inr (take (Suc i) (offs[i := ?o]) @ map (offsetAt t) [Suc i..<nat (NumEntries t)])"
    by simp
  also have "take (Suc i) (offs[i := ?o]) = take i offs @ [offsetAt t i]"
    using lt Suc.prems(2) by (simp add: take_Suc_conv_app_nth offsetAt_def)
  finally show ?case
    unfolding step using lt by (simp add: upt_conv_Cons)
qed

lemma CacheOffsets_uncached:
  assumes "\<not> cached t"
  shows "CacheOffsets t
         = Inr (t\<lparr>cached := True, cachedOffsets := map (offsetAt t) [0..<nat (NumEntries t)]\<rparr>)"
proof -
  have "CacheOffsets_loop t 0 0 0 (replicate (nat (NumEntries t)) zeroTableOffset)
        = Inr (map (offsetAt t) [0..<nat (NumEntries t)])"
    using CacheOffsets_loop_scan [of 0 t "replicate (nat (NumEntries t)) zeroTableOffset"]
    by simp
  then show ?thesis
    using assms by (simp add: CacheOffsets_def)
qed

lemma entries_eq_offsetAt:
  assumes "entries t' = entries t"
  shows "NumEntries t' = NumEntries t" "entryAt t' = entryAt t" "offsetAt t' = offsetAt t"
    "decompressedBefore t' = decompressedBefore t" "compressedBefore t' = compressedBefore t"
    "GetEntry t' = GetEntry t"
proof -
  show n: "NumEntries t' = NumEntries t"
    using assms by (simp add: NumEntries_def)
  show e: "entryAt t' = entryAt t"
    using assms by (auto simp: entryAt_def fun_eq_iff)
  have l: "entryList t' = entryList t"
    by (simp add: entryList_def n e)
  show d: "decompressedBefore t' = decompressedBefore t"
    by (auto simp: decompressedBefore_def decompressedSizes_def l fun_eq_iff)
  show c: "compressedBefore t' = compressedBefore t"
    by (auto simp: compressedBefore_def compressedSizes_def l fun_eq_iff)
  show "offsetAt t' = offsetAt t"
    by (auto simp: offsetAt_def d c fun_eq_iff)
  show "GetEntry t' = GetEntry t"
    using assms by (simp add: GetEntry_def fun_eq_iff Let_def)
qed

lemma CacheOffsets_fresh:
  assumes "cacheFresh t"
  shows "\<exists>t'. CacheOffsets t = Inr t' \<and> entries t' = entries t \<and> cached t'
           \<and> cachedOffsets t' = map (offsetAt t) [0..<nat (NumEntries t)]"
proof (cases "cached t")
  case True
  with assms show ?thesis
    by (simp add: CacheOffsets_def cacheFresh_def)
next
  case False
  then show ?thesis
    by (simp add: CacheOffsets_uncached)
qed

lemma unat_decompressedBefore:
  assumes "totalDecompressedSize t < 2 ^ 64" and "i \<le> nat (NumEntries t)"
  shows "unat (word_of_nat (decompressedBefore t i) :: 64 word) = decompressedBefore t i"
proof -
  have "decompressedBefore t i \<le> totalDecompressedSize t"
    using decompressedBefore_mono [OF assms(2), of t] by (simp add: decompressedBefore_total)
  with assms(1) have "decompressedBefore t i < 2 ^ LENGTH(64)"
    by simp
  then show ?thesis
    by (simp add: unat_of_nat)
qed

lemma unat_compressedBefore:
  assumes "totalCompressedSize t < 2 ^ 64" and "i \<le> nat (NumEntries t)"
  shows "unat (word_of_nat (compressedBefore t i) :: 64 word) = compressedBefore t i"
proof -
  have "compressedBefore t i \<le> totalCompressedSize t"
    using compressedBefore_mono [OF assms(2), of t] by (simp add: compressedBefore_total)
  with assms(1) have "compressedBefore t i < 2 ^ LENGTH(64)"
    by simp
  then show ?thesis
    by (simp add: unat_of_nat)
qed

lemma offset_le_iff:
  assumes "totalDecompressedSize t < 2 ^ 64" and "i < nat (NumEntries t)"
  shows "EntryOffsetInDecompressed (offsetAt t i) \<le> offset \<longleftrightarrow> decompressedBefore t i \<le> unat offset"
  using unat_decompressedBefore [OF assms(1), of i] assms(2)
  by (simp add: offsetAt_def word_le_nat_alt)

lemma offset_less_iff:
  assumes "totalDecompressedSize t < 2 ^ 64" and "i < nat (NumEntries t)"
  shows "offset < EntryOffsetInDecompressed (offsetAt t i) \<longleftrightarrow> unat offset < decompressedBefore t i"
  using unat_decompressedBefore [OF assms(1), of i] assms(2)
  by (simp add: offsetAt_def word_less_nat_alt)

lemma offset_end_iff:
  assumes "totalDecompressedSize t < 2 ^ 64" and "i < nat (NumEntries t)"
  shows "offset < EntryOffsetInDecompressed (offsetAt t i) + ucast (DecompressedSize (entryAt t i))
         \<longleftrightarrow> unat offset < decompressedBefore t i + unat (DecompressedSize (entryAt t i))"
proof -
  have "EntryOffsetInDecompressed (offsetAt t i) + ucast (DecompressedSize (entryAt t i))
        = (word_of_nat (decompressedBefore t (Suc i)) :: 64 word)"
    by (simp add: offsetAt_def decompressedBefore_Suc [OF assms(2)])
  moreover have "unat (word_of_nat (decompressedBefore t (Suc i)) :: 64 word)
                 = decompressedBefore t (Suc i)"
    using assms(2) by (intro unat_decompressedBefore [OF assms(1)]) simp
  ultimately show ?thesis
    by (simp add: word_less_nat_alt decompressedBefore_Suc [OF assms(2)])
qed

lemma Find_linear_step:
  assumes "totalDecompressedSize t < 2 ^ 64" and "i < nat (NumEntries t)"
  shows "Find_linear t (offsetAt t i # rest) offset
         = (if entryCovers t i (unat offset) then Inr (offsetAt t i, True)
            else Find_linear t rest offset)"
proof -
  have e: "GetEntry t (EntryIndex (offsetAt t i)) = Inr (entryAt t i)"
    by (simp add: offsetAt_def GetEntry_entryAt [OF assms(2)])
  show ?thesis
    by (simp add: e offset_le_iff [OF assms] offset_end_iff [OF assms] entryCovers_def)
qed

lemma quot_2: "0 \<le> a \<Longrightarrow> quot a 2 = a div 2"
  by (simp add: quot_def sgn_if)

lemma Find_binary_step:
  assumes "totalDecompressedSize t < 2 ^ 64"
      and "cachedOffsets t = map (offsetAt t) [0..<nat (NumEntries t)]"
      and "0 \<le> low" and "low \<le> high" and "high < NumEntries t"
  shows "Find_binary t offset low high
         = (if entryCovers t (nat ((low + high) div 2)) (unat offset)
            then Inr (offsetAt t (nat ((low + high) div 2)), True)
            else if unat offset < decompressedBefore t (nat ((low + high) div 2))
            then Find_binary t offset low ((low + high) div 2 - 1)
            else Find_binary t offset ((low + high) div 2 + 1) high)"
proof -
  define mid where "mid = (low + high) div 2"
  have q: "quot (low + high) 2 = mid"
    using assms(3,4) by (simp add: quot_2 mid_def)
  have m: "0 \<le> mid" "mid < NumEntries t" "low \<le> mid" "mid \<le> high"
    using assms(3,4,5) by (auto simp: mid_def)
  then have lt: "nat mid < nat (NumEntries t)"
    by simp
  have len: "mid < int (length (cachedOffsets t))"
    using m by (simp add: assms(2))
  have nth: "cachedOffsets t ! nat mid = offsetAt t (nat mid)"
    using lt by (simp add: assms(2))
  have e: "GetEntry t (EntryIndex (offsetAt t (nat mid))) = Inr (entryAt t (nat mid))"
    using GetEntry_entryAt [OF lt] by (simp add: offsetAt_def)
  show ?thesis
    apply (subst Find_binary.simps)
    unfolding q mid_def [symmetric] Let_def
    using assms(4) m(1) len
    by (simp add: nth e offset_le_iff [OF assms(1) lt] offset_end_iff [OF assms(1) lt]
        offset_less_iff [OF assms(1) lt] entryCovers_def del: Find_binary.simps)
qed

lemma entryCovers_unique:
  assumes "i < nat (NumEntries t)" and "j < nat (NumEntries t)"
      and "entryCovers t i x" and "entryCovers t j x"
  shows "i = j"
proof (rule ccontr)
  assume "i \<noteq> j"
  then consider "i < j" | "j < i"
    by linarith
  then show False
  proof cases
    case 1
    then have "decompressedBefore t (Suc i) \<le> decompressedBefore t j"
      by (intro decompressedBefore_mono) simp
    with assms(1,3,4) show False
      by (simp add: entryCovers_def decompressedBefore_Suc)
  next
    case 2
    then have "decompressedBefore t (Suc j) \<le> decompressedBefore t i"
      by (intro decompressedBefore_mono) simp
    with assms(2,3,4) show False
      by (simp add: entryCovers_def decompressedBefore_Suc)
  qed
qed

lemma entryCovers_exists:
  assumes "x < decompressedBefore t k" and "k \<le> nat (NumEntries t)"
  shows "\<exists>j<k. entryCovers t j x"
  using assms
proof (induction k)
  case 0
  then show ?case by simp
next
  case (Suc k)
  show ?case
  proof (cases "x < decompressedBefore t k")
    case True
    with Suc obtain j where "j < k" "entryCovers t j x"
      by auto
    then show ?thesis
      by (auto intro: less_SucI)
  next
    case False
    with Suc.prems have "entryCovers t k x"
      by (simp add: entryCovers_def decompressedBefore_Suc)
    then show ?thesis
      by blast
  qed
qed

lemma entryCovers_below_total:
  assumes "j < nat (NumEntries t)" and "entryCovers t j x"
  shows "x < totalDecompressedSize t"
proof -
  have "decompressedBefore t (Suc j) \<le> decompressedBefore t (nat (NumEntries t))"
    using assms(1) by (intro decompressedBefore_mono) simp
  with assms show ?thesis
    by (simp add: entryCovers_def decompressedBefore_Suc decompressedBefore_total)
qed

lemma Find_linear_none:
  assumes "totalDecompressedSize t < 2 ^ 64"
      and "\<And>j. j < nat (NumEntries t) \<Longrightarrow> \<not> entryCovers t j (unat offset)"
  shows "Find_linear t (map (offsetAt t) [k..<nat (NumEntries t)]) offset = Inr (zeroTableOffset, False)"
proof (induction "nat (NumEntries t) - k" arbitrary: k)
  case 0
  then show ?case by simp
next
  case (Suc d)
  then have lt: "k < nat (NumEntries t)"
    by simp
  have "d = nat (NumEntries t) - Suc k"
    using Suc.hyps(2) by simp
  from Suc.hyps(1) [OF this] show ?case
    using lt assms(2) [OF lt]
    by (simp add: upt_conv_Cons Find_linear_step [OF assms(1) lt] del: Find_linear.simps)
qed

lemma Find_linear_some:
  assumes "totalDecompressedSize t < 2 ^ 64"
      and "j < nat (NumEntries t)" and "entryCovers t j (unat offset)" and "k \<le> j"
  shows "Find_linear t (map (offsetAt t) [k..<nat (NumEntries t)]) offset = Inr (offsetAt t j, True)"
  using assms(4)
proof (induction "j - k" arbitrary: k)
  case 0
  then have "k = j"
    by simp
  then show ?case
    using assms(2,3)
    by (simp add: upt_conv_Cons Find_linear_step [OF assms(1,2)] del: Find_linear.simps)
next
  case (Suc d)
  then have kj: "k < j"
    by simp
  with assms(2) have lt: "k < nat (NumEntries t)"
    by simp
  have nc: "\<not> entryCovers t k (unat offset)"
    using entryCovers_unique [OF lt assms(2) _ assms(3)] kj by auto
  have "d = j - Suc k" "Suc k \<le> j"
    using Suc.hyps(2) kj by simp_all
  from Suc.hyps(1) [OF this] show ?case
    using lt nc
    by (simp add: upt_conv_Cons Find_linear_step [OF assms(1) lt] del: Find_linear.simps)
qed

lemma Find_binary_none:
  assumes "totalDecompressedSize t < 2 ^ 64"
      and "cachedOffsets t = map (offsetAt t) [0..<nat (NumEntries t)]"
      and "\<And>j. j < nat (NumEntries t) \<Longrightarrow> \<not> entryCovers t j (unat offset)"
      and "0 \<le> low" and "high < NumEntries t"
  shows "Find_binary t offset low high = Inr (zeroTableOffset, False)"
  using assms(4,5)
proof (induction "nat (high - low + 1)" arbitrary: low high rule: less_induct)
  case less
  show ?case
  proof (cases "low \<le> high")
    case False
    then show ?thesis
      by (subst Find_binary.simps) simp
  next
    case True
    define mid where "mid = (low + high) div 2"
    have m: "0 \<le> mid" "mid < NumEntries t" "low \<le> mid" "mid \<le> high"
      using less.prems True by (auto simp: mid_def)
    then have nc: "\<not> entryCovers t (nat mid) (unat offset)"
      by (intro assms(3)) simp
    have l: "Find_binary t offset low (mid - 1) = Inr (zeroTableOffset, False)"
      using m less.prems by (intro less.hyps) auto
    have r: "Find_binary t offset (mid + 1) high = Inr (zeroTableOffset, False)"
      using m less.prems by (intro less.hyps) auto
    show ?thesis
      unfolding Find_binary_step [OF assms(1,2) less.prems(1) True less.prems(2)]
        mid_def [symmetric]
      using nc l r by simp
  qed
qed

lemma Find_binary_some:
  assumes "totalDecompressedSize t < 2 ^ 64"
      and "cachedOffsets t = map (offsetAt t) [0..<nat (NumEntries t)]"
      and "j < nat (NumEntries t)" and "entryCovers t j (unat offset)"
      and "0 \<le> low" and "low \<le> int j" and "int j \<le> high" and "high < NumEntries t"
  shows "Find_binary t offset low high = Inr (offsetAt t j, True)"
  using assms(5-8)
proof (induction "nat (high - low + 1)" arbitrary: low high rule: less_induct)
  case less
  have lh: "low \<le> high"
    using less.prems by simp
  define mid where "mid = (low + high) div 2"
  have m: "0 \<le> mid" "mid < NumEntries t" "low \<le> mid" "mid \<le> high"
    using less.prems by (auto simp: mid_def)
  then have lt: "nat mid < nat (NumEntries t)"
    by simp
  note step = Find_binary_step [OF assms(1,2) less.prems(1) lh less.prems(4), of offset,
      unfolded mid_def [symmetric]]
  show ?case
  proof (cases "entryCovers t (nat mid) (unat offset)")
    case True
    from entryCovers_unique [OF lt assms(3) True assms(4)] have "nat mid = j" .
    with True show ?thesis
      unfolding step by simp
  next
    case False
    show ?thesis
    proof (cases "unat offset < decompressedBefore t (nat mid)")
      case True
      have "j < nat mid"
      proof (rule ccontr)
        assume "\<not> j < nat mid"
        then have "decompressedBefore t (nat mid) \<le> decompressedBefore t j"
          by (intro decompressedBefore_mono) simp
        with True assms(4) show False
          by (simp add: entryCovers_def)
      qed
      then have "int j \<le> mid - 1"
        by linarith
      then have "Find_binary t offset low (mid - 1) = Inr (offsetAt t j, True)"
        using m less.prems by (intro less.hyps) auto
      with True False show ?thesis
        unfolding step by simp
    next
      case ge: False
      have "nat mid < j"
      proof (rule ccontr)
        assume "\<not> nat mid < j"
        moreover have "nat mid \<noteq> j"
          using False assms(4) by auto
        ultimately have "Suc j \<le> nat mid"
          by simp
        then have "decompressedBefore t (Suc j) \<le> decompressedBefore t (nat mid)"
          by (rule decompressedBefore_mono)
        with ge assms(3,4) show False
          by (simp add: entryCovers_def decompressedBefore_Suc)
      qed
      then have "mid + 1 \<le> int j"
        by linarith
      then have "Find_binary t offset (mid + 1) high = Inr (offsetAt t j, True)"
        using m less.prems by (intro less.hyps) auto
      with ge False show ?thesis
        unfolding step by simp
    qed
  qed
qed

lemma entries_eq_total:
  assumes "entries t' = entries t"
  shows "totalDecompressedSize t' = totalDecompressedSize t"
    and "totalCompressedSize t' = totalCompressedSize t"
    and "entryCovers t' = entryCovers t"
  using entries_eq_offsetAt [OF assms]
    decompressedBefore_total [of t] decompressedBefore_total [of t']
    compressedBefore_total [of t] compressedBefore_total [of t']
  by (auto simp: entryCovers_def fun_eq_iff)

lemma search_paths:
  assumes "totalDecompressedSize u < 2 ^ 64"
      and "cachedOffsets u = map (offsetAt u) [0..<nat (NumEntries u)]"
  shows "\<exists>res. Find_linear u (cachedOffsets u) offset = res
           \<and> Find_binary u offset 0 (int (length (cachedOffsets u)) - 1) = res
           \<and> (unat offset < totalDecompressedSize u \<longrightarrow>
                 (\<exists>j<nat (NumEntries u). entryCovers u j (unat offset)
                      \<and> res = Inr (offsetAt u j, True)))
           \<and> (\<not> unat offset < totalDecompressedSize u \<longrightarrow> res = Inr (zeroTableOffset, False))"
proof (cases "unat offset < totalDecompressedSize u")
  case True
  then obtain j where j: "j < nat (NumEntries u)" "entryCovers u j (unat offset)"
    using entryCovers_exists [of "unat offset" u "nat (NumEntries u)"]
    by (auto simp: decompressedBefore_total)
  have l: "Find_linear u (cachedOffsets u) offset = Inr (offsetAt u j, True)"
    unfolding assms(2) by (rule Find_linear_some [OF assms(1) j]) simp
  have h: "int (length (cachedOffsets u)) - 1 < NumEntries u" "int j \<le> int (length (cachedOffsets u)) - 1"
    using j(1) NumEntries_nonneg [of u] by (simp_all add: assms(2))
  have b: "Find_binary u offset 0 (int (length (cachedOffsets u)) - 1) = Inr (offsetAt u j, True)"
    by (rule Find_binary_some [OF assms(1,2) j _ _ h(2) h(1)]) simp_all
  from True j l b show ?thesis
    by auto
next
  case False
  then have nc: "\<not> entryCovers u j (unat offset)" if "j < nat (NumEntries u)" for j
    using entryCovers_below_total [OF that] by blast
  have l: "Find_linear u (cachedOffsets u) offset = Inr (zeroTableOffset, False)"
    unfolding assms(2) by (rule Find_linear_none [OF assms(1) nc])
  have h: "int (length (cachedOffsets u)) - 1 < NumEntries u"
    using NumEntries_nonneg [of u] by (simp add: assms(2))
  have b: "Find_binary u offset 0 (int (length (cachedOffsets u)) - 1) = Inr (zeroTableOffset, False)"
    by (rule Find_binary_none [OF assms(1,2) nc _ h]) simp_all
  from False l b show ?thesis
    by auto
qed

lemma totalDecompressedSize_empty:
  "NumEntries t = 0 \<Longrightarrow> totalDecompressedSize t = 0"
  by (simp add: totalDecompressedSize_def decompressedSizes_def entryList_def)

subsection \<open>The entry that covers an offset\<close>

text \<open>
  Claim C2, for a table whose cache, if it has been computed, was computed from the entries
  the table has now, and whose compressed and decompressed sizes each sum to less than
  \<open>2 ^ 64\<close>. \<^verbatim>\<open>Find\<close> returns without a panic and leaves the entries as they are. It reports
  not-found exactly when the table is empty or the offset is not below the total
  decompressed size. When it reports an entry, that is an entry \<open>i\<close> of the table, the two
  offsets returned are the sums of the compressed and of the decompressed sizes of the
  entries before \<open>i\<close>, and the offset asked for lies in the decompressed range of entry \<open>i\<close>.
\<close>

theorem Find_covering_entry:
  assumes "cacheFresh t"
      and "totalDecompressedSize t < 2 ^ 64" and "totalCompressedSize t < 2 ^ 64"
  shows "\<exists>to found t'. Find t offset = Inr ((to, found), t')
           \<and> entries t' = entries t
           \<and> (\<not> found \<longleftrightarrow> NumEntries t = 0 \<or> totalDecompressedSize t \<le> unat offset)
           \<and> (found \<longrightarrow>
                (\<exists>i<nat (NumEntries t).
                    EntryIndex to = int i
                  \<and> unat (EntryOffsetInDecompressed to) = decompressedBefore t i
                  \<and> unat (EntryOffsetInCompressed to) = compressedBefore t i
                  \<and> unat (EntryOffsetInDecompressed to) \<le> unat offset
                  \<and> unat offset < unat (EntryOffsetInDecompressed to)
                                     + unat (DecompressedSize (entryAt t i))))"
proof -
  from CacheOffsets_fresh [OF assms(1)] obtain t' where
    t': "CacheOffsets t = Inr t'" "entries t' = entries t"
      "cachedOffsets t' = map (offsetAt t) [0..<nat (NumEntries t)]"
    by blast
  note eq = entries_eq_offsetAt [OF t'(2)] entries_eq_total [OF t'(2)]
  have tot: "totalDecompressedSize t' < 2 ^ 64"
    using assms(2) by (simp add: eq)
  have co: "cachedOffsets t' = map (offsetAt t') [0..<nat (NumEntries t')]"
    by (simp add: t'(3) eq)
  from search_paths [OF tot co, of offset] obtain res where
    res: "Find_linear t' (cachedOffsets t') offset = res"
      "Find_binary t' offset 0 (int (length (cachedOffsets t')) - 1) = res"
      "unat offset < totalDecompressedSize t \<Longrightarrow>
         \<exists>j<nat (NumEntries t). entryCovers t j (unat offset) \<and> res = Inr (offsetAt t j, True)"
      "\<not> unat offset < totalDecompressedSize t \<Longrightarrow> res = Inr (zeroTableOffset, False)"
    by (auto simp: eq)
  have f: "Find t offset = (case res of Inl p \<Rightarrow> Inl p | Inr r \<Rightarrow> Inr (r, t'))"
    by (simp add: Find_def t'(1) res(1,2))
  show ?thesis
  proof (cases "unat offset < totalDecompressedSize t")
    case False
    with res(4) have "res = Inr (zeroTableOffset, False)"
      by simp
    with f False t'(2) totalDecompressedSize_empty [of t] show ?thesis
      by auto
  next
    case True
    with res(3) obtain j where j: "j < nat (NumEntries t)" "entryCovers t j (unat offset)"
      "res = Inr (offsetAt t j, True)"
      by auto
    have d: "unat (EntryOffsetInDecompressed (offsetAt t j)) = decompressedBefore t j"
      using unat_decompressedBefore [OF assms(2), of j] j(1) by (simp add: offsetAt_def)
    have c: "unat (EntryOffsetInCompressed (offsetAt t j)) = compressedBefore t j"
      using unat_compressedBefore [OF assms(3), of j] j(1) by (simp add: offsetAt_def)
    have ne: "NumEntries t \<noteq> 0"
      using j(1) by auto
    have "Find t offset = Inr ((offsetAt t j, True), t')"
      by (simp add: f j(3))
    moreover have "EntryIndex (offsetAt t j) = int j"
      by (simp add: offsetAt_def)
    ultimately show ?thesis
      using True t'(2) j(1,2) d c ne by (auto simp: entryCovers_def)
  qed
qed

text \<open>
  The theorem at the table of the two entries \<open>(1, 5)\<close> and \<open>(2, 5)\<close> and the offset 7,
  which the second entry covers.
\<close>

theorem Find_covering_entry_witness:
  "\<exists>to t'. Find \<lparr>entries = [1, 0, 0, 0, 5, 0, 0, 0, 2, 0, 0, 0, 5, 0, 0, 0],
                    cached = False, cachedOffsets = []\<rparr> 7 = Inr ((to, True), t')
      \<and> EntryIndex to = 1
      \<and> unat (EntryOffsetInDecompressed to) = 5
      \<and> unat (EntryOffsetInCompressed to) = 1"
proof -
  let ?t = "\<lparr>entries = [1, 0, 0, 0, 5, 0, 0, 0, 2, 0, 0, 0, 5, 0, 0, 0],
             cached = False, cachedOffsets = []\<rparr>"
  have n: "nat (NumEntries ?t) = 2"
    by (simp add: NumEntries_def)
  have l: "entryList ?t = [\<lparr>CompressedSize = 1, DecompressedSize = 5\<rparr>,
                           \<lparr>CompressedSize = 2, DecompressedSize = 5\<rparr>]"
    by (simp add: entryList_def entryAt_def Uint32_def NumEntries_def upt_rec)
  have 1: "cacheFresh ?t"
    by (simp add: cacheFresh_def)
  have 2: "totalDecompressedSize ?t < 2 ^ 64" and 3: "totalCompressedSize ?t < 2 ^ 64"
    and 4: "totalDecompressedSize ?t = 10"
    by (simp_all add: totalDecompressedSize_def totalCompressedSize_def
        decompressedSizes_def compressedSizes_def l)
  have d: "decompressedBefore ?t 0 = 0" "decompressedBefore ?t 1 = 5"
    "compressedBefore ?t 1 = 1"
    by (simp_all add: decompressedBefore_def compressedBefore_def
        decompressedSizes_def compressedSizes_def l)
  from Find_covering_entry [OF 1 2 3, of 7]
  obtain to found t' where f: "Find ?t 7 = Inr ((to, found), t')"
    and nf: "\<not> found \<longleftrightarrow> NumEntries ?t = 0 \<or> totalDecompressedSize ?t \<le> unat (7 :: 64 word)"
    and fd: "found \<longrightarrow>
                (\<exists>i<nat (NumEntries ?t).
                    EntryIndex to = int i
                  \<and> unat (EntryOffsetInDecompressed to) = decompressedBefore ?t i
                  \<and> unat (EntryOffsetInCompressed to) = compressedBefore ?t i
                  \<and> unat (EntryOffsetInDecompressed to) \<le> unat (7 :: 64 word)
                  \<and> unat (7 :: 64 word) < unat (EntryOffsetInDecompressed to)
                                     + unat (DecompressedSize (entryAt ?t i)))"
    by blast
  from nf have found: found
    by (simp add: 4 NumEntries_def)
  with fd obtain i where i: "i < 2" "EntryIndex to = int i"
    "unat (EntryOffsetInDecompressed to) = decompressedBefore ?t i"
    "unat (EntryOffsetInCompressed to) = compressedBefore ?t i"
    "unat (7 :: 64 word) < unat (EntryOffsetInDecompressed to)
        + unat (DecompressedSize (entryAt ?t i))"
    unfolding n by blast
  have "i \<noteq> 0"
  proof
    assume "i = 0"
    with i(3,5) d show False
      by (simp add: entryAt_def Uint32_def)
  qed
  with i(1) have "i = 1"
    by simp
  with i d f found show ?thesis
    by auto
qed

text \<open>
  The cache is computed once. A table that is searched and then appended to keeps the cache
  of the search: after \<^verbatim>\<open>Find\<close> on the empty table and \<^verbatim>\<open>AppendEntry\<close> of the entry
  \<open>(1, 1)\<close> the table has one entry and a total decompressed size of 1, and \<^verbatim>\<open>Find(0)\<close>
  reports not-found.
\<close>

theorem Find_stale_cache_misses:
  "Find emptyTable 0
     = Inr ((zeroTableOffset, False), \<lparr>entries = [], cached = True, cachedOffsets = []\<rparr>)
   \<and> AppendEntry \<lparr>entries = [], cached = True, cachedOffsets = []\<rparr>
        \<lparr>CompressedSize = 1, DecompressedSize = 1\<rparr>
     = Inr \<lparr>entries = [1, 0, 0, 0, 1, 0, 0, 0], cached = True, cachedOffsets = []\<rparr>
   \<and> NumEntries \<lparr>entries = [1, 0, 0, 0, 1, 0, 0, 0], cached = True, cachedOffsets = []\<rparr> = 1
   \<and> totalDecompressedSize
        \<lparr>entries = [1, 0, 0, 0, 1, 0, 0, 0], cached = True, cachedOffsets = []\<rparr> = 1
   \<and> Find \<lparr>entries = [1, 0, 0, 0, 1, 0, 0, 0], cached = True, cachedOffsets = []\<rparr> 0
     = Inr ((zeroTableOffset, False),
            \<lparr>entries = [1, 0, 0, 0, 1, 0, 0, 0], cached = True, cachedOffsets = []\<rparr>)"
  by (simp add: Find_def CacheOffsets_def emptyTable_def NumEntries_def AppendEntry_entries
      PutUint32_def totalDecompressedSize_def decompressedSizes_def entryList_def entryAt_def
      Uint32_def)

subsection \<open>The two search paths\<close>

text \<open>
  Claim C7, for a table whose cache, if it has been computed, was computed from the entries
  the table has now, and whose decompressed sizes sum to less than \<open>2 ^ 64\<close>. On the table
  that \<^verbatim>\<open>CacheOffsets\<close> returns, the linear scan over the cached offsets and the binary
  search over them return the same result for every offset, whatever the number of entries.
\<close>

theorem Find_paths_agree:
  assumes "cacheFresh t" and "totalDecompressedSize t < 2 ^ 64"
      and "CacheOffsets t = Inr t'"
  shows "Find_linear t' (cachedOffsets t') offset
         = Find_binary t' offset 0 (int (length (cachedOffsets t')) - 1)"
proof -
  from CacheOffsets_fresh [OF assms(1)] assms(3) have
    t': "entries t' = entries t"
      "cachedOffsets t' = map (offsetAt t) [0..<nat (NumEntries t)]"
    by auto
  note eq = entries_eq_offsetAt [OF t'(1)] entries_eq_total [OF t'(1)]
  have tot: "totalDecompressedSize t' < 2 ^ 64"
    using assms(2) by (simp add: eq)
  have co: "cachedOffsets t' = map (offsetAt t') [0..<nat (NumEntries t')]"
    by (simp add: t'(2) eq)
  from search_paths [OF tot co, of offset] show ?thesis
    by auto
qed

text \<open>The theorem at a table of three entries of decompressed size 5 and the offset 7.\<close>

theorem Find_paths_agree_witness:
  "Find_linear
     \<lparr>entries = [1, 0, 0, 0, 5, 0, 0, 0, 1, 0, 0, 0, 5, 0, 0, 0, 1, 0, 0, 0, 5, 0, 0, 0],
      cached = True,
      cachedOffsets = map (offsetAt \<lparr>entries = [1, 0, 0, 0, 5, 0, 0, 0, 1, 0, 0, 0, 5, 0, 0, 0,
                                                 1, 0, 0, 0, 5, 0, 0, 0],
                                      cached = False, cachedOffsets = []\<rparr>) [0, 1, 2]\<rparr>
     (map (offsetAt \<lparr>entries = [1, 0, 0, 0, 5, 0, 0, 0, 1, 0, 0, 0, 5, 0, 0, 0,
                                 1, 0, 0, 0, 5, 0, 0, 0],
                      cached = False, cachedOffsets = []\<rparr>) [0, 1, 2]) 7
   = Find_binary
     \<lparr>entries = [1, 0, 0, 0, 5, 0, 0, 0, 1, 0, 0, 0, 5, 0, 0, 0, 1, 0, 0, 0, 5, 0, 0, 0],
      cached = True,
      cachedOffsets = map (offsetAt \<lparr>entries = [1, 0, 0, 0, 5, 0, 0, 0, 1, 0, 0, 0, 5, 0, 0, 0,
                                                 1, 0, 0, 0, 5, 0, 0, 0],
                                      cached = False, cachedOffsets = []\<rparr>) [0, 1, 2]\<rparr>
     7 0 2"
proof -
  let ?t = "\<lparr>entries = [1, 0, 0, 0, 5, 0, 0, 0, 1, 0, 0, 0, 5, 0, 0, 0, 1, 0, 0, 0, 5, 0, 0, 0],
             cached = False, cachedOffsets = []\<rparr>"
  have n: "nat (NumEntries ?t) = 3"
    by (simp add: NumEntries_def)
  have l: "entryList ?t = [\<lparr>CompressedSize = 1, DecompressedSize = 5\<rparr>,
                           \<lparr>CompressedSize = 1, DecompressedSize = 5\<rparr>,
                           \<lparr>CompressedSize = 1, DecompressedSize = 5\<rparr>]"
    by (simp add: entryList_def entryAt_def Uint32_def NumEntries_def upt_rec)
  have 1: "cacheFresh ?t"
    by (simp add: cacheFresh_def)
  have 2: "totalDecompressedSize ?t < 2 ^ 64"
    by (simp add: totalDecompressedSize_def decompressedSizes_def l)
  have u: "[0..<3] = [0, 1, 2]"
    by (simp add: upt_rec)
  have 3: "CacheOffsets ?t = Inr (?t\<lparr>cached := True, cachedOffsets := map (offsetAt ?t) [0, 1, 2]\<rparr>)"
    using CacheOffsets_uncached [of ?t] by (simp add: n u)
  from Find_paths_agree [OF 1 2 3, of 7] show ?thesis
    by simp
qed

text \<open>
  On a cache that no longer matches the entries the two paths differ. The offsets of three
  entries of decompressed size 5 are cached, then \<^verbatim>\<open>SetEntry\<close> gives the first entry
  the decompressed size 100. For the offset 7 the linear scan returns the first entry, whose
  range is now \<open>[0, 100)\<close>, and the binary search, which starts in the middle, returns the
  second, whose cached range is \<open>[5, 10)\<close>.
\<close>

theorem Find_paths_differ_on_stale_cache:
  "CacheOffsets
     \<lparr>entries = [1, 0, 0, 0, 5, 0, 0, 0, 1, 0, 0, 0, 5, 0, 0, 0, 1, 0, 0, 0, 5, 0, 0, 0],
      cached = False, cachedOffsets = []\<rparr>
   = Inr \<lparr>entries = [1, 0, 0, 0, 5, 0, 0, 0, 1, 0, 0, 0, 5, 0, 0, 0, 1, 0, 0, 0, 5, 0, 0, 0],
          cached = True,
          cachedOffsets =
            [\<lparr>EntryIndex = 0, EntryOffsetInCompressed = 0, EntryOffsetInDecompressed = 0\<rparr>,
             \<lparr>EntryIndex = 1, EntryOffsetInCompressed = 1, EntryOffsetInDecompressed = 5\<rparr>,
             \<lparr>EntryIndex = 2, EntryOffsetInCompressed = 2, EntryOffsetInDecompressed = 10\<rparr>]\<rparr>
   \<and> SetEntry
       \<lparr>entries = [1, 0, 0, 0, 5, 0, 0, 0, 1, 0, 0, 0, 5, 0, 0, 0, 1, 0, 0, 0, 5, 0, 0, 0],
        cached = True,
        cachedOffsets =
          [\<lparr>EntryIndex = 0, EntryOffsetInCompressed = 0, EntryOffsetInDecompressed = 0\<rparr>,
           \<lparr>EntryIndex = 1, EntryOffsetInCompressed = 1, EntryOffsetInDecompressed = 5\<rparr>,
           \<lparr>EntryIndex = 2, EntryOffsetInCompressed = 2, EntryOffsetInDecompressed = 10\<rparr>]\<rparr>
       0 \<lparr>CompressedSize = 1, DecompressedSize = 100\<rparr>
   = Inr \<lparr>entries = [1, 0, 0, 0, 100, 0, 0, 0, 1, 0, 0, 0, 5, 0, 0, 0, 1, 0, 0, 0, 5, 0, 0, 0],
          cached = True,
          cachedOffsets =
            [\<lparr>EntryIndex = 0, EntryOffsetInCompressed = 0, EntryOffsetInDecompressed = 0\<rparr>,
             \<lparr>EntryIndex = 1, EntryOffsetInCompressed = 1, EntryOffsetInDecompressed = 5\<rparr>,
             \<lparr>EntryIndex = 2, EntryOffsetInCompressed = 2, EntryOffsetInDecompressed = 10\<rparr>]\<rparr>
   \<and> Find_linear
       \<lparr>entries = [1, 0, 0, 0, 100, 0, 0, 0, 1, 0, 0, 0, 5, 0, 0, 0, 1, 0, 0, 0, 5, 0, 0, 0],
        cached = True,
        cachedOffsets =
          [\<lparr>EntryIndex = 0, EntryOffsetInCompressed = 0, EntryOffsetInDecompressed = 0\<rparr>,
           \<lparr>EntryIndex = 1, EntryOffsetInCompressed = 1, EntryOffsetInDecompressed = 5\<rparr>,
           \<lparr>EntryIndex = 2, EntryOffsetInCompressed = 2, EntryOffsetInDecompressed = 10\<rparr>]\<rparr>
       [\<lparr>EntryIndex = 0, EntryOffsetInCompressed = 0, EntryOffsetInDecompressed = 0\<rparr>,
        \<lparr>EntryIndex = 1, EntryOffsetInCompressed = 1, EntryOffsetInDecompressed = 5\<rparr>,
        \<lparr>EntryIndex = 2, EntryOffsetInCompressed = 2, EntryOffsetInDecompressed = 10\<rparr>] 7
     = Inr (\<lparr>EntryIndex = 0, EntryOffsetInCompressed = 0, EntryOffsetInDecompressed = 0\<rparr>, True)
   \<and> Find_binary
       \<lparr>entries = [1, 0, 0, 0, 100, 0, 0, 0, 1, 0, 0, 0, 5, 0, 0, 0, 1, 0, 0, 0, 5, 0, 0, 0],
        cached = True,
        cachedOffsets =
          [\<lparr>EntryIndex = 0, EntryOffsetInCompressed = 0, EntryOffsetInDecompressed = 0\<rparr>,
           \<lparr>EntryIndex = 1, EntryOffsetInCompressed = 1, EntryOffsetInDecompressed = 5\<rparr>,
           \<lparr>EntryIndex = 2, EntryOffsetInCompressed = 2, EntryOffsetInDecompressed = 10\<rparr>]\<rparr>
       7 0 2
     = Inr (\<lparr>EntryIndex = 1, EntryOffsetInCompressed = 1, EntryOffsetInDecompressed = 5\<rparr>, True)"
proof -
  have rep: "replicate 3 z = [z, z, z]" for z :: TableOffset
    by (simp add: numeral_3_eq_3)
  show ?thesis
    by (simp add: CacheOffsets_def NumEntries_def GetEntry_def SetEntry_def Uint32_def
        PutUint32_def zeroTableOffset_def Let_def quot_def Find_binary.simps rep)
qed
section \<open>The frames the writer records\<close>

text \<open>
  One pass of the loop of \<^verbatim>\<open>Write\<close> either takes a whole frame from the data (the fast
  path) or moves data into the frame buffer and, when the buffer is full, writes it as a
  frame. The lemmas follow the decompressed sizes recorded in the table through the loop,
  through a sequence of calls and through \<^verbatim>\<open>Close\<close>.
\<close>

lemma entryList_AppendEntry:
  assumes "AppendEntry t e = Inr t'"
  shows "entryList t' = entryList t @ [e]"
proof -
  let ?n = "nat (NumEntries t)"
  have n': "nat (NumEntries t') = Suc ?n"
    using NumEntries_AppendEntry [OF assms] NumEntries_nonneg [of t] by simp
  have lt: "entryAt t' i = entryAt t i" if "i < ?n" for i
  proof -
    have "GetEntry t' (int i) = GetEntry t (int i)"
      using that by (intro GetEntry_AppendEntry_before [OF assms]) simp
    moreover have "i < nat (NumEntries t')"
      using that n' by simp
    ultimately show ?thesis
      using GetEntry_entryAt [OF that] GetEntry_entryAt [of i t'] by simp
  qed
  have last: "entryAt t' ?n = e"
  proof -
    have "GetEntry t' (int ?n) = Inr e"
      using GetEntry_AppendEntry_last [OF assms] NumEntries_nonneg [of t] by simp
    then show ?thesis
      using GetEntry_entryAt [of ?n t'] n' by simp
  qed
  show ?thesis
    unfolding entryList_def n' using lt last by simp
qed

lemma decompressedSizes_AppendEntry:
  "AppendEntry t e = Inr t' \<Longrightarrow>
   decompressedSizes t' = decompressedSizes t @ [unat (DecompressedSize e)]"
  by (simp add: decompressedSizes_def entryList_AppendEntry)

lemma encodeAndWrite_fields:
  assumes "encodeAndWrite c frame = (written, err, c2)"
  shows "frameSize c2 = frameSize c" "frameBuffer c2 = frameBuffer c"
    "encoder c2 = encoder c" "isClosed c2 = isClosed c"
    "writer_seekTable c2 = writer_seekTable c"
  using assms by (auto simp: encodeAndWrite_def Let_def split: prod.splits)

lemma appendFrame_fields:
  assumes "int (length frame) < 2 ^ 32"
  shows "\<exists>c3. appendFrame c2 frame = Inr c3
           \<and> frameSize c3 = frameSize c2 \<and> frameBuffer c3 = frameBuffer c2
           \<and> encoder c3 = encoder c2 \<and> isClosed c3 = isClosed c2
           \<and> writer_w c3 = writer_w c2
           \<and> decompressedSizes (writer_seekTable c3)
               = decompressedSizes (writer_seekTable c2) @ [length frame]"
proof -
  let ?e = "\<lparr>CompressedSize = word_of_int (int (length (encoderBuffer c2))),
             DecompressedSize = (word_of_int (int (length frame)) :: 32 word)\<rparr>"
  obtain tbl where tbl: "AppendEntry (writer_seekTable c2) ?e = Inr tbl"
    by (simp add: AppendEntry_entries)
  have "uint (word_of_int (int (length frame)) :: 32 word) = int (length frame)"
    using assms by (intro uint_word_of_int_32) auto
  then have "unat (DecompressedSize ?e) = length frame"
    by (simp add: unat_eq_nat_uint)
  with decompressedSizes_AppendEntry [OF tbl] show ?thesis
    unfolding appendFrame_def tbl by simp
qed

lemma Write_loop_done: "Write_loop c [] n = Some (n, None, c)"
  by (subst Write_loop.simps) simp

lemma Write_loop_fast:
  assumes "data \<noteq> []" and "frameBuffer c = []"
      and "0 \<le> frameSize c" and "frameSize c \<le> int (length data)"
      and "encodeAndWrite c (take (nat (frameSize c)) data) = (written, err, c2)"
  shows "Write_loop c data n
         = (if err \<noteq> None
            then Some (n + written, Some (Join (Err ''error while writing frame'') (the err)), c2)
            else if isl (appendFrame c2 (take (nat (frameSize c)) data))
            then Some (n + written, Some (projl (appendFrame c2 (take (nat (frameSize c)) data))), c2)
            else Write_loop (projr (appendFrame c2 (take (nat (frameSize c)) data)))
                   (drop (nat (frameSize c)) data) (n + written))"
  using assms by (subst Write_loop.simps) (simp add: Let_def)

lemma Write_loop_buffered:
  assumes "data \<noteq> []" and "\<not> (frameBuffer c = [] \<and> frameSize c \<le> int (length data))"
      and "int (length (frameBuffer c)) \<le> frameSize c"
      and "k = nat (min (int (length data)) (frameSize c - int (length (frameBuffer c))))"
      and "c1 = c\<lparr>frameBuffer := frameBuffer c @ take k data\<rparr>"
      and "encodeAndWrite c1 (frameBuffer c1) = (written, err, c2)"
  shows "Write_loop c data n
         = (if int (length (frameBuffer c1)) = frameSize c then
              (if err \<noteq> None
               then Some (n + written, Some (Join (Err ''error while writing frame'') (the err)), c2)
               else if isl (appendFrame c2 (frameBuffer c2))
               then Some (n + int k, Some (projl (appendFrame c2 (frameBuffer c2))), c2)
               else Write_loop ((projr (appendFrame c2 (frameBuffer c2)))\<lparr>frameBuffer := []\<rparr>)
                      (drop k data) (n + int k))
            else Write_loop c1 (drop k data) (n + int k))"
proof -
  have tw: "min (int (length data)) (frameSize c - int (length (frameBuffer c))) = int k"
    using assms(3,4) by simp
  have e0: "0 < length data"
    using assms(1) by simp
  have e1: "(length (frameBuffer c) = 0 \<and> frameSize c \<le> int (length data)) = False"
    using assms(2) by simp
  have e2: "(int k < 0) = False"
    by simp
  have e3: "frameSize c1 = frameSize c"
    by (simp add: assms(5))
  have e4: "n + int k - int k + written = n + written"
    by simp
  show ?thesis
    apply (subst Write_loop.simps)
    apply (simp only: e0 e1 if_True if_False Let_def tw e2 nat_int assms(5) [symmetric])
    apply (simp only: assms(6) e3 e4 fst_conv snd_conv)
    done
qed

lemma Write_loop_frames:
  assumes "1 \<le> frameSize c" and "frameSize c < 2 ^ 32"
      and "int (length (frameBuffer c)) < frameSize c"
  shows "\<exists>n' e c'. Write_loop c data n = Some (n', e, c')
           \<and> frameSize c' = frameSize c \<and> encoder c' = encoder c \<and> isClosed c' = isClosed c
           \<and> (e = None \<longrightarrow>
                length (frameBuffer c')
                  = (length (frameBuffer c) + length data) mod nat (frameSize c)
              \<and> decompressedSizes (writer_seekTable c')
                  = decompressedSizes (writer_seekTable c)
                    @ replicate ((length (frameBuffer c) + length data) div nat (frameSize c))
                        (nat (frameSize c)))"
  using assms
proof (induction "length data" arbitrary: data c n rule: less_induct)
  case less
  define F where "F = nat (frameSize c)"
  have F: "frameSize c = int F" "1 \<le> F" "int F < 2 ^ 32" "length (frameBuffer c) < F"
    using less.prems by (simp_all add: F_def)
  show ?case
  proof (cases "data = []")
    case True
    then show ?thesis
      using F by (simp add: Write_loop_done F_def [symmetric])
  next
    case ne: False
    show ?thesis
    proof (cases "frameBuffer c = [] \<and> frameSize c \<le> int (length data)")
      case True
      then have fb: "frameBuffer c = []" and le: "F \<le> length data"
        using F by simp_all
      obtain written err c2 where
        ew: "encodeAndWrite c (take (nat (frameSize c)) data) = (written, err, c2)"
        by (cases "encodeAndWrite c (take (nat (frameSize c)) data)") auto
      note fl = encodeAndWrite_fields [OF ew]
      have st: "Write_loop c data n
                = (if err \<noteq> None
                   then Some (n + written, Some (Join (Err ''error while writing frame'') (the err)), c2)
                   else if isl (appendFrame c2 (take F data))
                   then Some (n + written, Some (projl (appendFrame c2 (take F data))), c2)
                   else Write_loop (projr (appendFrame c2 (take F data))) (drop F data) (n + written))"
        unfolding F_def using Write_loop_fast [OF ne fb _ _ ew, of n] True less.prems(1) by simp
      show ?thesis
      proof (cases "err = None")
        case False
        then show ?thesis
          unfolding st using fl by simp
      next
        case True
        have "int (length (take F data)) < 2 ^ 32"
          using le F by simp
        from appendFrame_fields [OF this, of c2] obtain c3 where
          c3: "appendFrame c2 (take F data) = Inr c3"
            "frameSize c3 = frameSize c2" "frameBuffer c3 = frameBuffer c2"
            "encoder c3 = encoder c2" "isClosed c3 = isClosed c2"
            "decompressedSizes (writer_seekTable c3)
               = decompressedSizes (writer_seekTable c2) @ [length (take F data)]"
          by blast
        have st': "Write_loop c data n = Write_loop c3 (drop F data) (n + written)"
          unfolding st using True c3(1) by simp
        have "length (drop F data) < length data"
          using F ne by simp
        moreover have "1 \<le> frameSize c3" "frameSize c3 < 2 ^ 32"
          "int (length (frameBuffer c3)) < frameSize c3"
          using less.prems c3 fl by simp_all
        ultimately obtain n' e c' where
          r: "Write_loop c3 (drop F data) (n + written) = Some (n', e, c')"
            "frameSize c' = frameSize c3" "encoder c' = encoder c3" "isClosed c' = isClosed c3"
            "e = None \<Longrightarrow> length (frameBuffer c')
                 = (length (frameBuffer c3) + length (drop F data)) mod nat (frameSize c3)"
            "e = None \<Longrightarrow> decompressedSizes (writer_seekTable c')
                 = decompressedSizes (writer_seekTable c3)
                   @ replicate ((length (frameBuffer c3) + length (drop F data)) div nat (frameSize c3))
                       (nat (frameSize c3))"
          using less.hyps [of "drop F data" c3 "n + written"] by blast
        have fs3: "nat (frameSize c3) = F" "frameBuffer c3 = []"
          using c3 fl fb F by simp_all
        have m: "(length data - F) mod F = length data mod F"
          using le by (simp add: le_mod_geq)
        have d: "length data div F = Suc ((length data - F) div F)"
          using le F by (simp add: le_div_geq)
        have tk: "length (take F data) = F"
          using le by simp
        show ?thesis
          unfolding st' r(1)
          using r(2-6) c3 fl fs3 fb m d tk by (simp add: F_def [symmetric])
      qed
    next
      case False
      define k where "k = nat (min (int (length data)) (frameSize c - int (length (frameBuffer c))))"
      define c1 where "c1 = c\<lparr>frameBuffer := frameBuffer c @ take k data\<rparr>"
      have ld: "1 \<le> length data"
        using ne by (cases data) auto
      have k: "1 \<le> k" "k \<le> length data" "length (frameBuffer c) + k \<le> F"
        using F ld by (auto simp: k_def min_def)
      have l1: "length (frameBuffer c1) = length (frameBuffer c) + k"
        using k by (simp add: c1_def)
      obtain written err c2 where
        ew: "encodeAndWrite c1 (frameBuffer c1) = (written, err, c2)"
        by (cases "encodeAndWrite c1 (frameBuffer c1)") auto
      note fl = encodeAndWrite_fields [OF ew]
      have le: "int (length (frameBuffer c)) \<le> frameSize c"
        using F by simp
      note st = Write_loop_buffered [OF ne False le k_def c1_def ew, of n]
      have c1f: "frameSize c1 = frameSize c" "encoder c1 = encoder c" "isClosed c1 = isClosed c"
        "writer_seekTable c1 = writer_seekTable c"
        by (simp_all add: c1_def)
      show ?thesis
      proof (cases "int (length (frameBuffer c1)) = frameSize c")
        case full: True
        then have kF: "length (frameBuffer c) + k = F"
          using l1 F by simp
        show ?thesis
        proof (cases "err = None")
          case False
          then show ?thesis
            unfolding st using full fl c1f by simp
        next
          case True
          have "int (length (frameBuffer c2)) < 2 ^ 32"
            using fl l1 kF F by simp
          from appendFrame_fields [OF this, of c2] obtain c3 where
            c3: "appendFrame c2 (frameBuffer c2) = Inr c3"
              "frameSize c3 = frameSize c2" "frameBuffer c3 = frameBuffer c2"
              "encoder c3 = encoder c2" "isClosed c3 = isClosed c2"
              "decompressedSizes (writer_seekTable c3)
                 = decompressedSizes (writer_seekTable c2) @ [length (frameBuffer c2)]"
            by blast
          define c4 where "c4 = c3\<lparr>frameBuffer := []\<rparr>"
          have st': "Write_loop c data n = Write_loop c4 (drop k data) (n + int k)"
            unfolding st c4_def using True full c3(1) by simp
          have c4f: "frameSize c4 = frameSize c" "frameBuffer c4 = []" "encoder c4 = encoder c"
            "isClosed c4 = isClosed c"
            "decompressedSizes (writer_seekTable c4) = decompressedSizes (writer_seekTable c) @ [F]"
            using c3 fl c1f l1 kF by (simp_all add: c4_def)
          have "length (drop k data) < length data"
            using k ne by simp
          moreover have "1 \<le> frameSize c4" "frameSize c4 < 2 ^ 32"
            "int (length (frameBuffer c4)) < frameSize c4"
            using less.prems c4f by simp_all
          ultimately obtain n' e c' where
            r: "Write_loop c4 (drop k data) (n + int k) = Some (n', e, c')"
              "frameSize c' = frameSize c4" "encoder c' = encoder c4" "isClosed c' = isClosed c4"
              "e = None \<Longrightarrow> length (frameBuffer c')
                   = (length (frameBuffer c4) + length (drop k data)) mod nat (frameSize c4)"
              "e = None \<Longrightarrow> decompressedSizes (writer_seekTable c')
                   = decompressedSizes (writer_seekTable c4)
                     @ replicate ((length (frameBuffer c4) + length (drop k data)) div nat (frameSize c4))
                         (nat (frameSize c4))"
            using less.hyps [of "drop k data" c4 "n + int k"] by blast
          have s: "length (frameBuffer c) + length data = F + (length data - k)"
            using kF k by simp
          have m: "(length (frameBuffer c) + length data) mod F = (length data - k) mod F"
            unfolding s by simp
          have "0 < F"
            using F by simp
          then have d: "(length (frameBuffer c) + length data) div F = Suc ((length data - k) div F)"
            unfolding s by (simp add: div_add_self1)
          show ?thesis
            unfolding st' r(1)
            using r(2-6) c4f m d by (simp add: F_def [symmetric])
        qed
      next
        case part: False
        then have lt: "length (frameBuffer c) + k < F"
          using l1 k F by simp
        then have kd: "k = length data"
          using F by (auto simp: k_def min_def split: if_splits)
        have st': "Write_loop c data n = Some (n + int k, None, c1)"
          unfolding st using part by (simp add: kd Write_loop_done)
        have "(length (frameBuffer c) + length data) mod F = length (frameBuffer c) + length data"
          "(length (frameBuffer c) + length data) div F = 0"
          using lt kd by simp_all
        then show ?thesis
          unfolding st' using c1f l1 kd by (simp add: F_def [symmetric])
      qed
    qed
  qed
qed

lemma div_mod_carry:
  fixes a b F :: nat
  assumes "0 < F"
  shows "a div F + (a mod F + b) div F = (a + b) div F"
proof -
  have "a + b = a div F * F + (a mod F + b)"
    by simp
  then have "(a + b) div F = (a div F * F + (a mod F + b)) div F"
    by (rule arg_cong)
  also have "\<dots> = a div F + (a mod F + b) div F"
    using assms by (simp only: div_mult_self3 neq0_conv)
  finally show ?thesis
    by simp
qed

lemma Writes_frames:
  assumes "1 \<le> frameSize c" and "frameSize c < 2 ^ 32"
      and "int (length (frameBuffer c)) < frameSize c"
  shows "\<exists>e c'. Writes c ds = Some (e, c')
           \<and> frameSize c' = frameSize c \<and> isClosed c' = isClosed c
           \<and> (e = None \<longrightarrow>
                length (frameBuffer c')
                  = (length (frameBuffer c) + length (concat ds)) mod nat (frameSize c)
              \<and> decompressedSizes (writer_seekTable c')
                  = decompressedSizes (writer_seekTable c)
                    @ replicate ((length (frameBuffer c) + length (concat ds)) div nat (frameSize c))
                        (nat (frameSize c)))"
  using assms
proof (induction ds arbitrary: c)
  case Nil
  then show ?case
    by simp
next
  case (Cons d ds)
  define F where "F = nat (frameSize c)"
  have F: "0 < F" "frameSize c = int F"
    using Cons.prems by (simp_all add: F_def)
  from Write_loop_frames [OF Cons.prems, of d 0] obtain n' e c1 where
    w: "Write c d = Some (n', e, c1)" "frameSize c1 = frameSize c" "isClosed c1 = isClosed c"
      "e = None \<Longrightarrow> length (frameBuffer c1) = (length (frameBuffer c) + length d) mod F"
      "e = None \<Longrightarrow> decompressedSizes (writer_seekTable c1)
           = decompressedSizes (writer_seekTable c)
             @ replicate ((length (frameBuffer c) + length d) div F) F"
    unfolding Write_def F_def by blast
  show ?case
  proof (cases e)
    case (Some x)
    then show ?thesis
      using w(1-3) by simp
  next
    case None
    note w1 = w(4,5) [OF None]
    have "length (frameBuffer c1) < F"
      unfolding w1(1) using F(1) by simp
    then have p: "1 \<le> frameSize c1" "frameSize c1 < 2 ^ 32"
      "int (length (frameBuffer c1)) < frameSize c1"
      using Cons.prems w(2) F(2) by simp_all
    from Cons.IH [OF p] obtain e' c' where
      r: "Writes c1 ds = Some (e', c')" "frameSize c' = frameSize c1" "isClosed c' = isClosed c1"
        "e' = None \<Longrightarrow> length (frameBuffer c')
             = (length (frameBuffer c1) + length (concat ds)) mod nat (frameSize c1)"
        "e' = None \<Longrightarrow> decompressedSizes (writer_seekTable c')
             = decompressedSizes (writer_seekTable c1)
               @ replicate ((length (frameBuffer c1) + length (concat ds)) div nat (frameSize c1))
                   (nat (frameSize c1))"
      by blast
    have f1: "nat (frameSize c1) = F"
      using w(2) by (simp add: F_def)
    let ?a = "length (frameBuffer c) + length d"
    have m: "(?a mod F + length (concat ds)) mod F = (?a + length (concat ds)) mod F"
      by (simp add: mod_add_left_eq)
    have dv: "?a div F + (?a mod F + length (concat ds)) div F = (?a + length (concat ds)) div F"
      using F(1) by (rule div_mod_carry)
    have ws: "Writes c (d # ds) = Some (e', c')"
      using w(1) None r(1) by simp
    have rep: "replicate (?a div F) F @ replicate ((?a mod F + length (concat ds)) div F) F
               = replicate ((?a + length (concat ds)) div F) F"
      unfolding replicate_add [symmetric] dv ..
    show ?thesis
      unfolding ws
      using r(2-5) w(2,3) w1 f1 m rep
      by (simp add: F_def [symmetric] add.assoc)
  qed
qed

lemma Close_flushes:
  assumes "\<not> isClosed c" and "int (length (frameBuffer c)) < 2 ^ 32"
      and "Close c = (None, c2)"
  shows "decompressedSizes (writer_seekTable c2)
         = decompressedSizes (writer_seekTable c)
           @ (if frameBuffer c = [] then [] else [length (frameBuffer c)])"
proof -
  define c0 where "c0 = c\<lparr>isClosed := True\<rparr>"
  have c0: "frameBuffer c0 = frameBuffer c" "writer_seekTable c0 = writer_seekTable c"
    by (simp_all add: c0_def)
  obtain e1 c1 where fl: "Close_flush c0 = (e1, c1)"
    by (cases "Close_flush c0") auto
  from assms(1,3) have e1: "e1 = None"
    by (cases e1) (auto simp: Close_def c0_def [symmetric] fl split: prod.splits option.splits)
  from assms(1,3) have t: "writer_seekTable c2 = writer_seekTable c1"
    by (auto simp: Close_def c0_def [symmetric] fl e1 split: prod.splits option.splits)
  show ?thesis
  proof (cases "frameBuffer c = []")
    case True
    then have "c1 = c0"
      using fl by (simp add: Close_flush_def c0)
    then show ?thesis
      using True t c0 by simp
  next
    case False
    obtain written err c' where ew: "encodeAndWrite c0 (frameBuffer c) = (written, err, c')"
      by (cases "encodeAndWrite c0 (frameBuffer c)") auto
    note f = encodeAndWrite_fields [OF ew]
    have "int (length (frameBuffer c')) < 2 ^ 32"
      using assms(2) f c0 by simp
    from appendFrame_fields [OF this, of c'] obtain c3 where
      c3: "appendFrame c' (frameBuffer c') = Inr c3"
        "decompressedSizes (writer_seekTable c3)
           = decompressedSizes (writer_seekTable c') @ [length (frameBuffer c')]"
      by blast
    from fl e1 False have "err = None"
      by (cases err) (auto simp: Close_flush_def c0 ew)
    with fl False have "c1 = c3\<lparr>frameBuffer := []\<rparr>"
      by (simp add: Close_flush_def c0 ew c3(1))
    then show ?thesis
      using False t c3(2) f c0 by simp
  qed
qed

lemma sum_list_replicate_nat: "sum_list (replicate k (x :: nat)) = k * x"
  by (induction k) simp_all

subsection \<open>The entries partition the input\<close>

text \<open>
  Claim C1, for a frame size \<open>F\<close> with \<open>1 \<le> F < 2 ^ 32\<close> and calls of \<^verbatim>\<open>Write\<close> that all
  return without an error. Every sequence of calls on a new writer returns. When no call
  returned an error and \<^verbatim>\<open>Close\<close> returns none, the decompressed sizes recorded in the
  table are \<open>F\<close> for every full frame of the bytes passed to \<^verbatim>\<open>Write\<close>, then the
  remainder if it is not zero, and they sum to the number of those bytes.
\<close>

theorem Writes_Close_partition:
  assumes "1 \<le> F" and "F < 2 ^ 32" and "NewWriter w F (Inr enc) = Inr c0"
  shows "\<exists>e c1. Writes c0 ds = Some (e, c1)
           \<and> (\<forall>c2. e = None \<and> Close c1 = (None, c2) \<longrightarrow>
                 decompressedSizes (writer_seekTable c2)
                   = replicate (length (concat ds) div nat F) (nat F)
                     @ (if length (concat ds) mod nat F = 0 then []
                        else [length (concat ds) mod nat F])
               \<and> totalDecompressedSize (writer_seekTable c2) = length (concat ds))"
proof -
  from assms have c0: "frameSize c0 = F" "frameBuffer c0 = []" "\<not> isClosed c0"
    "decompressedSizes (writer_seekTable c0) = []"
    by (auto simp: NewWriter_def emptyTable_def decompressedSizes_def entryList_def NumEntries_def
        split: if_splits)
  have p: "1 \<le> frameSize c0" "frameSize c0 < 2 ^ 32" "int (length (frameBuffer c0)) < frameSize c0"
    using assms(1,2) c0 by simp_all
  let ?N = "length (concat ds)"
  from Writes_frames [OF p, of ds] obtain e c1 where
    r: "Writes c0 ds = Some (e, c1)" "frameSize c1 = F" "\<not> isClosed c1"
      "e = None \<Longrightarrow> length (frameBuffer c1) = ?N mod nat F"
      "e = None \<Longrightarrow> decompressedSizes (writer_seekTable c1) = replicate (?N div nat F) (nat F)"
    using c0 by auto
  have "decompressedSizes (writer_seekTable c2)
          = replicate (?N div nat F) (nat F) @ (if ?N mod nat F = 0 then [] else [?N mod nat F])
        \<and> totalDecompressedSize (writer_seekTable c2) = ?N"
    if e: "e = None" and cl: "Close c1 = (None, c2)" for c2
  proof -
    have lt: "?N mod nat F < nat F"
      using assms(1) by simp
    then have "int (length (frameBuffer c1)) < 2 ^ 32"
      using r(4) [OF e] assms(2) by simp
    from Close_flushes [OF r(3) this cl]
    have d: "decompressedSizes (writer_seekTable c2)
             = replicate (?N div nat F) (nat F) @ (if ?N mod nat F = 0 then [] else [?N mod nat F])"
      using r(4,5) [OF e] by (simp add: length_0_conv [symmetric] del: length_0_conv)
    have "sum_list (if ?N mod nat F = 0 then [] else [?N mod nat F]) = ?N mod nat F"
      by simp
    then have "totalDecompressedSize (writer_seekTable c2) = ?N div nat F * nat F + ?N mod nat F"
      unfolding totalDecompressedSize_def d by (simp only: sum_list_append sum_list_replicate_nat)
    also have "\<dots> = ?N"
      by (rule div_mult_mod_eq)
    finally show ?thesis
      using d by simp
  qed
  with r(1) show ?thesis
    by blast
qed

text \<open>The theorem at the frame size 2 and the calls \<^verbatim>\<open>Write([1])\<close>, \<^verbatim>\<open>Write([2, 3])\<close>.\<close>

theorem Writes_Close_partition_witness:
  "\<exists>c0 c1 c2.
      NewWriter newBuffer 2 (Inr (\<lambda>src. src)) = Inr c0
      \<and> Writes c0 [[1], [2, 3]] = Some (None, c1)
      \<and> Close c1 = (None, c2)
      \<and> decompressedSizes (writer_seekTable c2) = [2, 1]
      \<and> totalDecompressedSize (writer_seekTable c2) = 3"
proof -
  let ?c0 = "\<lparr>writer_w = newBuffer, frameSize = 2, frameBuffer = [], encoderBuffer = [],
              encoder = \<lambda>src. src, writer_seekTable = emptyTable, isClosed = False\<rparr>"
  have c0: "NewWriter newBuffer 2 (Inr (\<lambda>src. src)) = Inr ?c0"
    by (simp add: NewWriter_def)
  obtain c1 where c1: "Writes ?c0 [[1], [2, 3]] = Some (None, c1)"
    by (simp add: Write_def Write_loop.simps encodeAndWrite_def sink_Write_def
        Let_def newBuffer_def appendFrame_def AppendEntry_entries)
  obtain c2 where c2: "Close c1 = (None, c2)"
    using c1
    by (auto simp add: Write_def Write_loop.simps encodeAndWrite_def sink_Write_def
        Let_def newBuffer_def appendFrame_def AppendEntry_entries emptyTable_def NumEntries_def
        Close_def Close_flush_def WriteTableToWriter_def PutUint32_def)
  have b: "(1::int) \<le> 2" "(2::int) < 2 ^ 32"
    by simp_all
  from Writes_Close_partition [OF b c0, of "[[1], [2, 3]]"] c1 c2
  have h: "decompressedSizes (writer_seekTable c2)
             = replicate (length (concat [[1 :: byte], [2, 3]]) div nat 2) (nat 2)
               @ (if length (concat [[1 :: byte], [2, 3]]) mod nat 2 = 0 then []
                  else [length (concat [[1 :: byte], [2, 3]]) mod nat 2])
           \<and> totalDecompressedSize (writer_seekTable c2) = length (concat [[1 :: byte], [2, 3]])"
    by auto
  have n: "length (concat [[1 :: byte], [2, 3]]) = 3" "nat 2 = 2"
    "(3 :: nat) div 2 = 1" "(3 :: nat) mod 2 = 1" "replicate 1 (2 :: nat) = [2]"
    by simp_all
  from h have "decompressedSizes (writer_seekTable c2) = [2, 1]
        \<and> totalDecompressedSize (writer_seekTable c2) = 3"
    unfolding n by simp
  with c0 c1 c2 show ?thesis
    by blast
qed

text \<open>
  The recorded size is \<^verbatim>\<open>uint32(len(toEncode))\<close>. With a frame size of \<open>2 ^ 32\<close> and
  one call of \<^verbatim>\<open>Write\<close> with \<open>2 ^ 32\<close> bytes, both calls return without an error and
  the table holds one entry with the decompressed size 0.
\<close>

theorem Write_frame_size_truncated:
  "\<exists>c n c1 c2.
      NewWriter newBuffer 4294967296 (Inr (\<lambda>src. [0])) = Inr c
      \<and> Write c (replicate 4294967296 7) = Some (n, None, c1)
      \<and> Close c1 = (None, c2)
      \<and> decompressedSizes (writer_seekTable c2) = [0]
      \<and> totalDecompressedSize (writer_seekTable c2) = 0"
  by (simp add: NewWriter_def Write_def Write_loop.simps encodeAndWrite_def sink_Write_def
      Let_def newBuffer_def appendFrame_def AppendEntry_entries emptyTable_def NumEntries_def
      Close_def Close_flush_def WriteTableToWriter_def PutUint32_def
      decompressedSizes_def entryList_def entryAt_def Uint32_def totalDecompressedSize_def)

text \<open>
  A call that returns an error on the fast path has taken its frame from the data and
  recorded nothing. With a frame size of 2 and a sink whose first write fails,
  \<^verbatim>\<open>Write([1, 2])\<close> returns the error, \<^verbatim>\<open>Close\<close> then returns none, and the table is
  empty.
\<close>

lemma Write_failed_frame_dropped:
  "\<exists>c n e c1 c2.
      NewWriter \<lparr>sunk = [], faults = [Some 0]\<rparr> 2 (Inr (\<lambda>src. src)) = Inr c
      \<and> Write c [1, 2] = Some (n, Some e, c1)
      \<and> Close c1 = (None, c2)
      \<and> decompressedSizes (writer_seekTable c2) = []"
  by (simp add: NewWriter_def Write_def Write_loop.simps encodeAndWrite_def sink_Write_def
      Let_def newBuffer_def appendFrame_def AppendEntry_entries emptyTable_def NumEntries_def
      Close_def Close_flush_def WriteTableToWriter_def PutUint32_def
      decompressedSizes_def entryList_def entryAt_def Uint32_def totalDecompressedSize_def)

end
